theory Spec2Isabelle
  imports Complex_Main "HOL-Library.Word" "HOL-Library.Multiset" "HOL-Library.List_Lexorder"
begin

unbundle bit_operations_syntax

section \<open>JavaScript values used by generate-gallery.js\<close>

text \<open>
  A JavaScript string is a sequence of UTF-16 code units: \<open>str.length\<close> counts code
  units and \<open>str.charCodeAt(i)\<close> returns the i-th one. A character outside the Basic
  Multilingual Plane occupies two code units (a surrogate pair).
\<close>

type_synonym jsstring = "16 word list"

definition lit :: "string \<Rightarrow> jsstring" where
  "lit s = map of_char s"

text \<open>The string a JavaScript program holds for a sequence of Unicode code points.\<close>

definition utf16_encode :: "nat \<Rightarrow> jsstring" where
  "utf16_encode cp =
     (if cp < 0x10000 then [of_nat cp]
      else [of_nat (0xD800 + (cp - 0x10000) div 0x400),
            of_nat (0xDC00 + (cp - 0x10000) mod 0x400)])"

definition js_string_of :: "nat list \<Rightarrow> jsstring" where
  "js_string_of cps = concat (map utf16_encode cps)"

text \<open>
  Numbers. The hash works on integers far below \<open>2^53\<close>, where the arithmetic of
  doubles is exact, so they are modelled as \<open>int\<close>; the bitwise operators convert
  their operands with ToInt32 / ToUint32 as ECMAScript prescribes.
\<close>

definition toInt32 :: "int \<Rightarrow> int" where
  "toInt32 x = (let k = x mod 2 ^ 32 in if 2 ^ 31 \<le> k then k - 2 ^ 32 else k)"

definition toUint32 :: "int \<Rightarrow> int" where
  "toUint32 x = x mod 2 ^ 32"

text \<open>\<open>x << n\<close>\<close>

definition js_shl :: "int \<Rightarrow> int \<Rightarrow> int" where
  "js_shl x n = toInt32 (toInt32 x * 2 ^ nat (toUint32 n mod 32))"

text \<open>\<open>x ^ y\<close>\<close>

definition js_xor :: "int \<Rightarrow> int \<Rightarrow> int" where
  "js_xor x y = toInt32 x XOR toInt32 y"

text \<open>\<open>x >>> 0\<close>\<close>

definition js_ushr0 :: "int \<Rightarrow> nat" where
  "js_ushr0 x = nat (toUint32 x)"

text \<open>\<open>n.toString(radix)\<close> for a non-negative integer \<open>n\<close>.\<close>

definition digitChar :: "nat \<Rightarrow> 16 word" where
  "digitChar d = lit ''0123456789abcdefghijklmnopqrstuvwxyz'' ! d"

function toStringRadix :: "nat \<Rightarrow> nat \<Rightarrow> jsstring" where
  "toStringRadix b n =
     (if n < b \<or> b < 2 then [digitChar n]
      else toStringRadix b (n div b) @ [digitChar (n mod b)])"
  by pat_completeness auto
termination
  by (relation "measure snd") auto

text \<open>\<open>s.padStart(n, fill)\<close>\<close>

definition padStart :: "nat \<Rightarrow> jsstring \<Rightarrow> jsstring \<Rightarrow> jsstring" where
  "padStart n fill s =
     (if n \<le> length s \<or> fill = [] then s
      else take (n - length s) (concat (replicate (n - length s) fill)) @ s)"

section \<open>hashPath\<close>

text \<open>One round of the loop body for one accumulator: \<open>((h << 5) + h) ^ c\<close>.\<close>

definition hash_step :: "int \<Rightarrow> 16 word \<Rightarrow> int" where
  "hash_step h c = js_xor (js_shl h 5 + h) (uint c)"

fun hashPath_loop :: "jsstring \<Rightarrow> int \<Rightarrow> int \<Rightarrow> int \<times> int" where
  "hashPath_loop [] h1 h2 = (h1, h2)"
| "hashPath_loop (c # cs) h1 h2 = hashPath_loop cs (hash_step h1 c) (hash_step h2 c)"

definition hashPath :: "jsstring \<Rightarrow> jsstring" where
  "hashPath str =
     (case hashPath_loop str 5381 52711 of
        (h1, h2) \<Rightarrow>
          padStart 8 (lit ''0'') (toStringRadix 16 (js_ushr0 h1)) @
          padStart 8 (lit ''0'') (toStringRadix 16 (js_ushr0 h2)))"

subsection \<open>The dual-djb2 reference, as the specification words it\<close>

text \<open>
  Two 32-bit accumulators seeded 5381 and 52711; for each code point
  \<open>acc := ((acc << 5) + acc) XOR codepoint\<close>, truncated to 32 bits; the output is the two
  accumulators as zero-padded 8-digit lowercase hexadecimal, accumulator 1 first.
\<close>

definition djb2_step :: "nat \<Rightarrow> nat \<Rightarrow> nat" where
  "djb2_step acc cp = ((push_bit 5 acc + acc) XOR cp) mod 2 ^ 32"

definition hexDigit :: "nat \<Rightarrow> 16 word" where
  "hexDigit d = lit ''0123456789abcdef'' ! d"

fun hexN :: "nat \<Rightarrow> nat \<Rightarrow> jsstring" where
  "hexN 0 n = []"
| "hexN (Suc k) n = hexN k (n div 16) @ [hexDigit (n mod 16)]"

definition fingerprint :: "nat list \<Rightarrow> jsstring" where
  "fingerprint cps = hexN 8 (foldl djb2_step 5381 cps) @ hexN 8 (foldl djb2_step 52711 cps)"

definition hexChars :: "16 word set" where
  "hexChars = set (lit ''0123456789abcdef'')"

section \<open>Path and string functions of the Node.js runtime (POSIX flavour)\<close>

text \<open>
  \<open>s.toLowerCase()\<close>. The letters A to Z are mapped; characters outside ASCII are left
  as they are. (JavaScript also lowercases non-ASCII letters; none of them maps to a string
  this program compares with, the only one mapping into ASCII being U+212A to \<open>k\<close>.)
\<close>

definition toLowerCase :: "jsstring \<Rightarrow> jsstring" where
  "toLowerCase s = map (\<lambda>c. if 65 \<le> c \<and> c \<le> 90 then c + 32 else c) s"

text \<open>\<open>s.slice(a, b)\<close> for \<open>0 \<le> a\<close> and \<open>0 \<le> b\<close>.\<close>

definition slice :: "jsstring \<Rightarrow> nat \<Rightarrow> nat \<Rightarrow> jsstring" where
  "slice s a b = take (b - a) (drop a s)"

text \<open>
  \<open>path.extname\<close>: the backwards scan of Node's implementation, with its five
  variables. \<open>extname_loop cs i st\<close> runs the iterations \<open>i, i - 1, \<dots>, 0\<close> of the
  loop, \<open>cs\<close> holding the characters at these indices in this order.
\<close>

record ext_state =
  startDot :: int
  startPart :: int
  endPos :: int
  matchedSlash :: bool
  preDotState :: int

text \<open>The first character that is not a separator marks the end of the extension.\<close>

definition mark_end :: "int \<Rightarrow> ext_state \<Rightarrow> ext_state" where
  "mark_end i st =
     (if endPos st = - 1 then st\<lparr>matchedSlash := False, endPos := i + 1\<rparr> else st)"

definition note_char :: "16 word \<Rightarrow> int \<Rightarrow> ext_state \<Rightarrow> ext_state" where
  "note_char code i st =
     (if code = 46 then
        (if startDot st = - 1 then st\<lparr>startDot := i\<rparr>
         else if preDotState st \<noteq> 1 then st\<lparr>preDotState := 1\<rparr>
         else st)
      else if startDot st \<noteq> - 1 then st\<lparr>preDotState := - 1\<rparr>
      else st)"

fun extname_loop :: "jsstring \<Rightarrow> int \<Rightarrow> ext_state \<Rightarrow> ext_state" where
  "extname_loop [] i st = st"
| "extname_loop (code # cs) i st =
     (if code = 47 then
        (if \<not> matchedSlash st then st\<lparr>startPart := i + 1\<rparr>
         else extname_loop cs (i - 1) st)
      else extname_loop cs (i - 1) (note_char code i (mark_end i st)))"

definition extname_result :: "jsstring \<Rightarrow> ext_state \<Rightarrow> jsstring" where
  "extname_result p st =
     (if startDot st = - 1 \<or> endPos st = - 1 \<or> preDotState st = 0 \<or>
         (preDotState st = 1 \<and> startDot st = endPos st - 1 \<and>
          startDot st = startPart st + 1)
      then []
      else slice p (nat (startDot st)) (nat (endPos st)))"

definition extname :: "jsstring \<Rightarrow> jsstring" where
  "extname p =
     extname_result p
       (extname_loop (rev p) (int (length p) - 1)
          \<lparr>startDot = - 1, startPart = 0, endPos = - 1,
           matchedSlash = True, preDotState = 0\<rparr>)"

text \<open>Splitting at every \<open>/\<close>, and joining with \<open>/\<close>.\<close>

fun split_slash :: "jsstring \<Rightarrow> jsstring list" where
  "split_slash [] = [[]]"
| "split_slash (c # cs) =
     (if c = 47 then [] # split_slash cs
      else (case split_slash cs of [] \<Rightarrow> [[c]] | s # ss \<Rightarrow> (c # s) # ss))"

fun join_slash :: "jsstring list \<Rightarrow> jsstring" where
  "join_slash [] = []"
| "join_slash [s] = s"
| "join_slash (s # t # ss) = s @ 47 # join_slash (t # ss)"

text \<open>
  Node's \<open>normalizeString\<close>, on the segments of the path: empty segments and \<open>.\<close> are
  dropped, \<open>..\<close> removes the segment before it (or stays, in a relative path, when there
  is none to remove).
\<close>

definition norm_step :: "bool \<Rightarrow> jsstring list \<Rightarrow> jsstring \<Rightarrow> jsstring list" where
  "norm_step allowAboveRoot res seg =
     (if seg = [] \<or> seg = lit ''.'' then res
      else if seg = lit ''..'' then
        (if res \<noteq> [] \<and> last res \<noteq> lit ''..'' then butlast res
         else if allowAboveRoot then res @ [seg] else res)
      else res @ [seg])"

definition normalizeString :: "jsstring \<Rightarrow> bool \<Rightarrow> jsstring list" where
  "normalizeString p allowAboveRoot = foldl (norm_step allowAboveRoot) [] (split_slash p)"

definition normalize :: "jsstring \<Rightarrow> jsstring" where
  "normalize p =
     (if p = [] then lit ''.''
      else
        (let isAbsolute = (hd p = 47);
             trailingSeparator = (last p = 47);
             q = join_slash (normalizeString p (\<not> isAbsolute))
         in if q = [] then
              (if isAbsolute then lit ''/''
               else if trailingSeparator then lit ''./'' else lit ''.'')
            else
              (let q' = (if trailingSeparator then q @ lit ''/'' else q)
               in if isAbsolute then 47 # q' else q')))"

text \<open>\<open>path.join(...args)\<close>\<close>

definition path_join :: "jsstring list \<Rightarrow> jsstring" where
  "path_join args =
     (let joined = join_slash (filter (\<lambda>a. a \<noteq> []) args)
      in if joined = [] then lit ''.'' else normalize joined)"

text \<open>\<open>path.dirname(p)\<close> for a path without a trailing separator and not the root directory.\<close>

definition dirname :: "jsstring \<Rightarrow> jsstring" where
  "dirname p =
     (let segs = split_slash p in
      if length segs \<le> 1 then lit ''.''
      else if butlast segs = [[]] then lit ''/''
      else join_slash (butlast segs))"

text \<open>
  \<open>path.relative(from, to)\<close> for two absolute paths: the common leading segments are
  dropped, every remaining segment of \<open>from\<close> becomes \<open>..\<close>, the rest of \<open>to\<close>
  follows.
\<close>

fun drop_common :: "jsstring list \<Rightarrow> jsstring list \<Rightarrow> jsstring list \<times> jsstring list" where
  "drop_common (a # as) (b # bs) = (if a = b then drop_common as bs else (a # as, b # bs))"
| "drop_common as bs = (as, bs)"

definition path_relative :: "jsstring \<Rightarrow> jsstring \<Rightarrow> jsstring" where
  "path_relative from to =
     (case drop_common (normalizeString from False) (normalizeString to False) of
        (fs, ts) \<Rightarrow> join_slash (replicate (length fs) (lit ''..'') @ ts))"

section \<open>Configuration and media entries\<close>

definition IMAGE_EXTENSIONS :: "jsstring list" where
  "IMAGE_EXTENSIONS =
     [lit ''.jpg'', lit ''.jpeg'', lit ''.png'', lit ''.gif'', lit ''.webp'', lit ''.bmp'']"

definition VIDEO_EXTENSIONS :: "jsstring list" where
  "VIDEO_EXTENSIONS = [lit ''.mp4'']"

definition MEDIA_EXTENSIONS :: "jsstring list" where
  "MEDIA_EXTENSIONS = IMAGE_EXTENSIONS @ VIDEO_EXTENSIONS"

definition OUTPUT_DATA_FILE :: jsstring where
  "OUTPUT_DATA_FILE = lit ''images-data.js''"

definition OUTPUT_HTML_FILE :: jsstring where
  "OUTPUT_HTML_FILE = lit ''gallery.html''"

definition THUMBNAILS_DIR :: jsstring where
  "THUMBNAILS_DIR = lit ''thumbnails''"

definition CONCURRENT_THUMBNAILS :: nat where
  "CONCURRENT_THUMBNAILS = 8"

text \<open>The \<open>type\<close> field of a media entry is \<open>'image'\<close> or \<open>'video'\<close>.\<close>

datatype media_type = Image | Video

record media_entry =
  path :: jsstring
  size_bytes :: nat
  mtype :: media_type

section \<open>getThumbnailPath\<close>

definition getThumbnailPath :: "jsstring \<Rightarrow> media_type \<Rightarrow> jsstring" where
  "getThumbnailPath mediaPath mediaType =
     (let ext = toLowerCase (extname mediaPath);
          thumbExt = (if mediaType = Video \<or> ext = lit ''.gif'' then lit ''.webp''
                      else if ext = lit ''.png'' then lit ''.png'' else lit ''.jpg'');
          hash = hashPath mediaPath
      in path_join [THUMBNAILS_DIR, [hash ! 0], [hash ! 1], hash @ thumbExt])"

section \<open>findMedia\<close>

text \<open>
  What the scan meets in a directory: a regular file with the size \<open>statSync\<close> reports
  (or \<open>None\<close> when it throws), a directory with the listing \<open>readdirSync\<close> returns (or
  \<open>None\<close> when it throws), or an entry that is neither (a symbolic link, a socket).
\<close>

datatype dirent =
    FileEnt jsstring "nat option"
  | DirEnt jsstring "dirent list option"
  | OtherEnt jsstring

text \<open>
  The module-level variables \<open>seenSizes\<close> and \<open>duplicatesSkipped\<close>, and the array
  \<open>media\<close> that every call pushes to.
\<close>

record scan =
  seenSizes :: "nat set"
  duplicatesSkipped :: nat
  media :: "media_entry list"

definition scan0 :: scan where
  "scan0 = \<lparr>seenSizes = {}, duplicatesSkipped = 0, media = []\<rparr>"

definition skipped_name :: "jsstring \<Rightarrow> bool" where
  "skipped_name name \<longleftrightarrow>
     name = OUTPUT_DATA_FILE \<or> name = OUTPUT_HTML_FILE \<or> name = THUMBNAILS_DIR"

text \<open>The branch \<open>entry.isFile()\<close> of the loop body.\<close>

definition visit_file :: "jsstring \<Rightarrow> jsstring \<Rightarrow> jsstring \<Rightarrow> nat option \<Rightarrow> scan \<Rightarrow> scan" where
  "visit_file rootDir fullPath name stat st =
     (let ext = toLowerCase (extname name) in
      if ext \<in> set MEDIA_EXTENSIONS then
        (case stat of
           None \<Rightarrow> st
         | Some sz \<Rightarrow>
             if sz \<in> seenSizes st then st\<lparr>duplicatesSkipped := duplicatesSkipped st + 1\<rparr>
             else st\<lparr>seenSizes := insert sz (seenSizes st),
                     media := media st @
                       [\<lparr>path = path_relative rootDir fullPath, size_bytes = sz,
                         mtype = (if ext \<in> set VIDEO_EXTENSIONS then Video else Image)\<rparr>]\<rparr>)
      else st)"

fun findMedia :: "jsstring \<Rightarrow> jsstring \<Rightarrow> dirent list option \<Rightarrow> scan \<Rightarrow> scan"
  and findMedia_loop :: "jsstring \<Rightarrow> jsstring \<Rightarrow> dirent list \<Rightarrow> scan \<Rightarrow> scan"
where
  "findMedia rootDir dir None st = st"
| "findMedia rootDir dir (Some entries) st = findMedia_loop rootDir dir entries st"
| "findMedia_loop rootDir dir [] st = st"
| "findMedia_loop rootDir dir (FileEnt name stat # es) st =
     findMedia_loop rootDir dir es
       (if skipped_name name then st
        else visit_file rootDir (path_join [dir, name]) name stat st)"
| "findMedia_loop rootDir dir (DirEnt name listing # es) st =
     findMedia_loop rootDir dir es
       (if skipped_name name then st
        else findMedia rootDir (path_join [dir, name]) listing st)"
| "findMedia_loop rootDir dir (OtherEnt name # es) st = findMedia_loop rootDir dir es st"

section \<open>generateVideoThumbnail\<close>

subsection \<open>Sampling parameters\<close>

text \<open>
  \<open>parseInt(s, 16)\<close> for a string without leading white space or sign: an optional
  \<open>0x\<close> prefix is dropped, the longest prefix of hexadecimal digits is read, and the
  result is NaN (\<open>None\<close>) when there is no digit.
\<close>

definition hexValue :: "16 word \<Rightarrow> nat option" where
  "hexValue c =
     (if 48 \<le> c \<and> c \<le> 57 then Some (unat c - 48)
      else if 97 \<le> c \<and> c \<le> 102 then Some (unat c - 87)
      else if 65 \<le> c \<and> c \<le> 70 then Some (unat c - 55)
      else None)"

definition digitValue :: "16 word \<Rightarrow> nat" where
  "digitValue c = (case hexValue c of None \<Rightarrow> 0 | Some v \<Rightarrow> v)"

definition strip0x :: "jsstring \<Rightarrow> jsstring" where
  "strip0x s = (if take 2 s = lit ''0x'' \<or> take 2 s = lit ''0X'' then drop 2 s else s)"

definition parseInt16 :: "jsstring \<Rightarrow> nat option" where
  "parseInt16 s =
     (let ds = takeWhile (\<lambda>c. hexValue c \<noteq> None) (strip0x s)
      in if ds = [] then None else Some (foldl (\<lambda>a c. 16 * a + digitValue c) 0 ds))"

text \<open>
  \<open>parseInt(hash.slice(0, 2), 16) % 4 + 7\<close> and
  \<open>parseInt(hash.slice(2, 4), 16) % 11 + 10\<close>; \<open>None\<close> stands for NaN.
\<close>

definition baseSegmentCount :: "jsstring \<Rightarrow> nat option" where
  "baseSegmentCount hash = map_option (\<lambda>v. v mod 4 + 7) (parseInt16 (slice hash 0 2))"

definition framesPerSegment :: "jsstring \<Rightarrow> nat option" where
  "framesPerSegment hash = map_option (\<lambda>v. v mod 11 + 10) (parseInt16 (slice hash 2 4))"

text \<open>\<open>Math.min(baseSegmentCount, Math.max(1, Math.floor(duration)))\<close>\<close>

definition segmentCount :: "nat \<Rightarrow> real \<Rightarrow> int" where
  "segmentCount base duration = min (int base) (max 1 \<lfloor>duration\<rfloor>)"

text \<open>
  The value of the pair of hexadecimal digits at byte offset \<open>k\<close> of a fingerprint, as the
  specification words the derivation.
\<close>

definition hexPairValue :: "jsstring \<Rightarrow> nat \<Rightarrow> nat" where
  "hexPairValue h k = 16 * digitValue (h ! (2 * k)) + digitValue (h ! (2 * k + 1))"

text \<open>The scratch file of frame \<open>frameIndex\<close>: \<open>frame_NNN.png\<close>.\<close>

definition frameFile :: "nat \<Rightarrow> jsstring" where
  "frameFile frameIndex =
     lit ''frame_'' @ padStart 3 (lit ''0'') (toStringRadix 10 frameIndex) @ lit ''.png''"

subsection \<open>Double-precision arithmetic\<close>

text \<open>
  JavaScript numbers are IEEE 754 binary64 values and every arithmetic operation rounds
  its exact result to the nearest one, ties to even. \<open>binary64 x\<close> is that rounding for
  \<open>x\<close> in the normal range (no overflow, no subnormal result): with \<open>2^e \<le> |x| < 2^(e+1)\<close>
  the result is the multiple of \<open>2^(e-52)\<close> nearest to \<open>x\<close>.
\<close>

function bitlength :: "nat \<Rightarrow> nat" where
  "bitlength n = (if n = 0 then 0 else Suc (bitlength (n div 2)))"
  by pat_completeness auto
termination
  by (relation "measure id") auto

definition expo :: "real \<Rightarrow> int" where
  "expo x =
     (if 1 \<le> x then int (bitlength (nat \<lfloor>x\<rfloor>)) - 1
      else - int (bitlength (nat (\<lceil>1 / x\<rceil> - 1))))"

definition round_even :: "real \<Rightarrow> int" where
  "round_even x =
     (let f = \<lfloor>x\<rfloor>; r = x - of_int f
      in if r < 1 / 2 then f
         else if 1 / 2 < r then f + 1
         else if even f then f else f + 1)"

definition ulp :: "real \<Rightarrow> real" where
  "ulp x = (let e = expo x in if 52 \<le> e then 2 ^ nat (e - 52) else 1 / 2 ^ nat (52 - e))"

definition binary64 :: "real \<Rightarrow> real" where
  "binary64 x =
     (if x = 0 then 0
      else sgn x * of_int (round_even (\<bar>x\<bar> / ulp \<bar>x\<bar>)) * ulp \<bar>x\<bar>)"

subsection \<open>Segment timestamps\<close>

text \<open>
  The computation of \<open>segmentTimestamps\<close> with the rounding of every operation as a
  parameter: \<open>binary64\<close> is what the program computes, the identity is exact arithmetic.
  \<open>timestamps_upto rnd startOffset interval k\<close> is the array after \<open>k\<close> rounds of the
  loop.
\<close>

fun timestamps_upto :: "(real \<Rightarrow> real) \<Rightarrow> real \<Rightarrow> real \<Rightarrow> nat \<Rightarrow> real list" where
  "timestamps_upto rnd startOffset interval 0 = []"
| "timestamps_upto rnd startOffset interval (Suc i) =
     timestamps_upto rnd startOffset interval i @
       [rnd (startOffset + rnd (real i * interval))]"

definition timestamps_with :: "(real \<Rightarrow> real) \<Rightarrow> real \<Rightarrow> int \<Rightarrow> real list" where
  "timestamps_with rnd duration segCount =
     (let startOffset = rnd (duration * rnd (5 / 100));
          endOffset = rnd (duration * rnd (95 / 100));
          usableDuration = rnd (endOffset - startOffset);
          interval = rnd (usableDuration / of_int (max 1 (segCount - 1)))
      in timestamps_upto rnd startOffset interval (nat segCount))"

definition segmentTimestamps :: "real \<Rightarrow> int \<Rightarrow> real list" where
  "segmentTimestamps = timestamps_with binary64"

subsection \<open>The environment of one invocation\<close>

text \<open>
  How a child process started with \<open>execSync\<close> ends: it exits with status 0 and has
  written its output file, or \<open>execSync\<close> throws (non-zero status, missing program,
  timeout) and the process has or has not left a file at its output path.
\<close>

datatype exec_result = ExecOk | ExecFail bool

text \<open>
  The answers of the operating system to one invocation: the duration that ffprobe prints,
  parsed (\<open>None\<close> when \<open>execSync\<close> throws or the output is not a number); the directory
  \<open>mkdtempSync\<close> creates (\<open>None\<close> when it throws); the outcome of each ffmpeg call, by
  its arguments; and whether \<open>readdirSync\<close>, each \<open>unlinkSync\<close> and \<open>rmdirSync\<close> of the
  cleanup succeed.
\<close>

record world =
  probe :: "real option"
  mkdtemp :: "jsstring option"
  extractFrame :: "real \<Rightarrow> jsstring \<Rightarrow> exec_result"
  assemble :: exec_result
  readdir_ok :: bool
  unlink_ok :: "jsstring \<Rightarrow> bool"
  rmdir_ok :: bool

text \<open>
  The files the invocation can touch: the scratch directory (\<open>None\<close> while it does not
  exist, otherwise the names in it) and whether a file exists at \<open>outputPath\<close>.
\<close>

record vstate =
  scratch :: "jsstring list option"
  outputExists :: bool

datatype verror = DurationUnavailable | MkdtempError | ExecError

definition getVideoDuration :: "world \<Rightarrow> real option" where
  "getVideoDuration w =
     (case probe w of
        None \<Rightarrow> None
      | Some duration \<Rightarrow> if duration \<le> 0 then None else Some duration)"

definition add_scratch :: "jsstring \<Rightarrow> vstate \<Rightarrow> vstate" where
  "add_scratch name st =
     (case scratch st of
        None \<Rightarrow> st
      | Some files \<Rightarrow>
          st\<lparr>scratch := Some (if name \<in> set files then files else files @ [name])\<rparr>)"

text \<open>
  The inner loop \<open>for (f = 0; f < framesPerSegment; f++)\<close>, with \<open>k\<close> rounds to go; it
  returns the next \<open>frameIndex\<close>, or the error \<open>execSync\<close> throws.
\<close>

fun frames_loop ::
  "world \<Rightarrow> jsstring \<Rightarrow> real \<Rightarrow> nat \<Rightarrow> nat \<Rightarrow> nat \<Rightarrow> vstate \<Rightarrow> (verror + nat) \<times> vstate" where
  "frames_loop w tempDir timestamp f 0 frameIndex st = (Inr frameIndex, st)"
| "frames_loop w tempDir timestamp f (Suc k) frameIndex st =
     (case extractFrame w (binary64 (timestamp + binary64 (real f / 30)))
             (path_join [tempDir, frameFile frameIndex]) of
        ExecOk \<Rightarrow>
          frames_loop w tempDir timestamp (f + 1) k (frameIndex + 1)
            (add_scratch (frameFile frameIndex) st)
      | ExecFail left \<Rightarrow>
          (Inl ExecError, if left then add_scratch (frameFile frameIndex) st else st))"

text \<open>The outer loop over \<open>segmentTimestamps\<close>.\<close>

fun segments_loop ::
  "world \<Rightarrow> jsstring \<Rightarrow> real list \<Rightarrow> nat \<Rightarrow> nat \<Rightarrow> vstate \<Rightarrow> (verror + nat) \<times> vstate" where
  "segments_loop w tempDir [] fps frameIndex st = (Inr frameIndex, st)"
| "segments_loop w tempDir (timestamp # rest) fps frameIndex st =
     (case frames_loop w tempDir timestamp 0 fps frameIndex st of
        (Inl e, st') \<Rightarrow> (Inl e, st')
      | (Inr frameIndex', st') \<Rightarrow> segments_loop w tempDir rest fps frameIndex' st')"

text \<open>The ffmpeg call that combines the frames into \<open>outputPath\<close>.\<close>

definition assemble_frames :: "world \<Rightarrow> vstate \<Rightarrow> (verror + unit) \<times> vstate" where
  "assemble_frames w st =
     (case assemble w of
        ExecOk \<Rightarrow> (Inr (), st\<lparr>outputExists := True\<rparr>)
      | ExecFail left \<Rightarrow> (Inl ExecError, if left then st\<lparr>outputExists := True\<rparr> else st))"

text \<open>The body of the \<open>try\<close> block.\<close>

definition extract_and_assemble ::
  "world \<Rightarrow> jsstring \<Rightarrow> real list \<Rightarrow> nat \<Rightarrow> vstate \<Rightarrow> (verror + unit) \<times> vstate" where
  "extract_and_assemble w tempDir timestamps fps st =
     (case segments_loop w tempDir timestamps fps 0 st of
        (Inl e, st') \<Rightarrow> (Inl e, st')
      | (Inr frameIndex, st') \<Rightarrow> assemble_frames w st')"

text \<open>
  The \<open>finally\<close> block: list the scratch directory, unlink every file, remove the
  directory; the first call that throws ends it, and the error is ignored.
\<close>

fun unlink_frames :: "world \<Rightarrow> jsstring \<Rightarrow> jsstring list \<Rightarrow> jsstring list \<Rightarrow> bool \<times> jsstring list" where
  "unlink_frames w tempDir [] files = (True, files)"
| "unlink_frames w tempDir (frame # frames) files =
     (if unlink_ok w (path_join [tempDir, frame])
      then unlink_frames w tempDir frames (removeAll frame files)
      else (False, files))"

definition cleanup :: "world \<Rightarrow> jsstring \<Rightarrow> vstate \<Rightarrow> vstate" where
  "cleanup w tempDir st =
     (case scratch st of
        None \<Rightarrow> st
      | Some files \<Rightarrow>
          if \<not> readdir_ok w then st
          else
            (case unlink_frames w tempDir files files of
               (False, remaining) \<Rightarrow> st\<lparr>scratch := Some remaining\<rparr>
             | (True, remaining) \<Rightarrow>
                 if remaining = [] \<and> rmdir_ok w then st\<lparr>scratch := None\<rparr>
                 else st\<lparr>scratch := Some remaining\<rparr>))"

text \<open>
  The array \<open>segmentTimestamps\<close> and the constant \<open>framesPerSegment\<close> of one invocation.
  A NaN count (\<open>None\<close>) makes the condition of its loop false at once, so there is no
  round.
\<close>

definition videoTimestamps :: "jsstring \<Rightarrow> real \<Rightarrow> real list" where
  "videoTimestamps videoPath duration =
     (case baseSegmentCount (hashPath videoPath) of
        None \<Rightarrow> []
      | Some b \<Rightarrow> segmentTimestamps duration (segmentCount b duration))"

definition videoFrames :: "jsstring \<Rightarrow> nat" where
  "videoFrames videoPath =
     (case framesPerSegment (hashPath videoPath) of None \<Rightarrow> 0 | Some f \<Rightarrow> f)"

text \<open>
  \<open>generateVideoThumbnail(videoPath, outputPath)\<close>: the result is \<open>Inr ()\<close> when the
  promise resolves and \<open>Inl e\<close> when it rejects.
\<close>

definition generateVideoThumbnail ::
  "world \<Rightarrow> jsstring \<Rightarrow> vstate \<Rightarrow> (verror + unit) \<times> vstate" where
  "generateVideoThumbnail w videoPath st =
     (case getVideoDuration w of
        None \<Rightarrow> (Inl DurationUnavailable, st)
      | Some duration \<Rightarrow>
          (case mkdtemp w of
             None \<Rightarrow> (Inl MkdtempError, st)
           | Some tempDir \<Rightarrow>
               (case extract_and_assemble w tempDir (videoTimestamps videoPath duration)
                       (videoFrames videoPath) (st\<lparr>scratch := Some []\<rparr>) of
                  (r, st') \<Rightarrow> (r, cleanup w tempDir st'))))"

section \<open>generateThumbnails: the worker pool\<close>

text \<open>
  \<open>processOne\<close> is an async function: between two \<open>await\<close>s a worker runs alone, and
  the workers interleave at the \<open>await\<close>s. A worker is at the head of its loop, suspended
  at the \<open>await\<close> of the task it dispatched, done (its promise resolved), or has thrown
  (its promise rejected, which makes \<open>Promise.all\<close> reject and the program exit). For a
  video the whole of \<open>generateVideoThumbnail\<close> has run before the \<open>await\<close> suspends, so
  its result is known (\<open>Some ok\<close>); a sharp promise settles later (\<open>None\<close>).
\<close>

datatype outcome = Generated | Skipped | Failed

datatype worker =
    AtLoop
  | Awaiting media_entry "bool option"
  | Finished
  | Rejected media_entry

text \<open>
  The variables the workers share: \<open>queue\<close>, the three counters, and the file system
  (the paths for which \<open>fs.existsSync\<close> is true). \<open>outcomes\<close> is a history variable, not
  in the program: it records the terminal outcome of every task, in the order of completion.
\<close>

record pool =
  queue :: "media_entry list"
  workers :: "worker list"
  completed :: nat
  skipped :: nat
  failed :: nat
  fsPaths :: "jsstring set"
  outcomes :: "(media_entry \<times> outcome) list"

definition init_pool :: "media_entry list \<Rightarrow> nat \<Rightarrow> jsstring set \<Rightarrow> pool" where
  "init_pool inventory n files0 =
     \<lparr>queue = inventory, workers = replicate n AtLoop, completed = 0, skipped = 0, failed = 0,
      fsPaths = files0, outcomes = []\<rparr>"

definition set_worker :: "nat \<Rightarrow> worker \<Rightarrow> pool \<Rightarrow> pool" where
  "set_worker i w s = s\<lparr>workers := (workers s)[i := w]\<rparr>"

text \<open>
  The three places that count a task: \<open>skipped++; completed++\<close>, \<open>completed++\<close> after
  the \<open>await\<close>, and \<open>failed++; completed++\<close> in the \<open>catch\<close>.
\<close>

definition record_outcome :: "media_entry \<Rightarrow> outcome \<Rightarrow> pool \<Rightarrow> pool" where
  "record_outcome item out s =
     s\<lparr>completed := completed s + 1,
       skipped := (if out = Skipped then skipped s + 1 else skipped s),
       failed := (if out = Failed then failed s + 1 else failed s),
       outcomes := outcomes s @ [(item, out)]\<rparr>"

definition thumbPathOf :: "jsstring \<Rightarrow> media_entry \<Rightarrow> jsstring" where
  "thumbPathOf rootDir item = path_join [rootDir, getThumbnailPath (path item) (mtype item)]"

text \<open>
  The \<open>try\<close> block up to its \<open>await\<close>. A video runs \<open>generateVideoThumbnail\<close> at once,
  in the environment \<open>vw\<close>; an image (GIF, PNG or other) starts a sharp pipeline.
\<close>

definition dispatch :: "jsstring \<Rightarrow> nat \<Rightarrow> world \<Rightarrow> media_entry \<Rightarrow> pool \<Rightarrow> pool" where
  "dispatch rootDir i vw item s =
     (if mtype item = Video then
        (case generateVideoThumbnail vw (path_join [rootDir, path item])
                \<lparr>scratch = None, outputExists = False\<rparr> of
           (r, vst) \<Rightarrow>
             set_worker i (Awaiting item (Some (r = Inr ())))
               (s\<lparr>fsPaths := (if outputExists vst then insert (thumbPathOf rootDir item) (fsPaths s)
                              else fsPaths s)\<rparr>))
      else set_worker i (Awaiting item None) s)"

text \<open>
  One round of the \<open>while\<close> loop of worker \<open>i\<close>, from the test of the queue to the next
  \<open>continue\<close>, \<open>await\<close>, return or escaping exception. \<open>mkdir_ok\<close> tells whether
  \<open>mkdirSync\<close> succeeds; it is called outside the \<open>try\<close>.
\<close>

definition pull :: "jsstring \<Rightarrow> bool \<Rightarrow> nat \<Rightarrow> bool \<Rightarrow> world \<Rightarrow> pool \<Rightarrow> pool" where
  "pull rootDir hasFfmpeg i mkdir_ok vw s =
     (case queue s of
        [] \<Rightarrow> set_worker i Finished s
      | item # rest \<Rightarrow>
          (let thumbPath = thumbPathOf rootDir item;
               thumbDir = dirname thumbPath;
               s1 = s\<lparr>queue := rest\<rparr>
           in if thumbPath \<in> fsPaths s1 then record_outcome item Skipped s1
              else if mtype item = Video \<and> \<not> hasFfmpeg then record_outcome item Skipped s1
              else if thumbDir \<notin> fsPaths s1 \<and> \<not> mkdir_ok then set_worker i (Rejected item) s1
              else dispatch rootDir i vw item (s1\<lparr>fsPaths := insert thumbDir (fsPaths s1)\<rparr>)))"

text \<open>
  The awaited promise of worker \<open>i\<close> settles and the worker runs on to the head of the
  loop: \<open>completed++\<close>, or \<open>failed++; completed++\<close> in the \<open>catch\<close>. A sharp pipeline that
  resolves has written the thumbnail; one that rejects may have left a file.
\<close>

definition settle ::
  "jsstring \<Rightarrow> nat \<Rightarrow> exec_result \<Rightarrow> media_entry \<Rightarrow> bool option \<Rightarrow> pool \<Rightarrow> pool" where
  "settle rootDir i res item known s =
     (let ok = (case known of Some ok \<Rightarrow> ok | None \<Rightarrow> res = ExecOk);
          written = (case known of Some ok \<Rightarrow> False | None \<Rightarrow> res \<noteq> ExecFail False);
          s1 = s\<lparr>fsPaths := (if written then insert (thumbPathOf rootDir item) (fsPaths s)
                             else fsPaths s)\<rparr>
      in set_worker i AtLoop (record_outcome item (if ok then Generated else Failed) s1))"

datatype event = Pull nat bool world | Settle nat exec_result

definition step :: "jsstring \<Rightarrow> bool \<Rightarrow> event \<Rightarrow> pool \<Rightarrow> pool option" where
  "step rootDir hasFfmpeg ev s =
     (case ev of
        Pull i mkdir_ok vw \<Rightarrow>
          if i < length (workers s) \<and> workers s ! i = AtLoop
          then Some (pull rootDir hasFfmpeg i mkdir_ok vw s) else None
      | Settle i res \<Rightarrow>
          if i < length (workers s) then
            (case workers s ! i of
               Awaiting item known \<Rightarrow> Some (settle rootDir i res item known s)
             | _ \<Rightarrow> None)
          else None)"

text \<open>A schedule: the events in the order in which they happen.\<close>

fun run :: "jsstring \<Rightarrow> bool \<Rightarrow> event list \<Rightarrow> pool \<Rightarrow> pool option" where
  "run rootDir hasFfmpeg [] s = Some s"
| "run rootDir hasFfmpeg (ev # evs) s =
     (case step rootDir hasFfmpeg ev s of
        None \<Rightarrow> None
      | Some s' \<Rightarrow> run rootDir hasFfmpeg evs s')"

text \<open>
  The final line \<open>Generated: completed - skipped - failed, Skipped: \<dots>, Failed: \<dots>\<close>,
  printed once \<open>Promise.all\<close> has resolved, that is when every worker has returned.
\<close>

definition all_finished :: "pool \<Rightarrow> bool" where
  "all_finished s \<longleftrightarrow> list_all (\<lambda>w. w = Finished) (workers s)"

definition summary :: "pool \<Rightarrow> (int \<times> nat \<times> nat) option" where
  "summary s =
     (if all_finished s
      then Some (int (completed s) - int (skipped s) - int (failed s), skipped s, failed s)
      else None)"

text \<open>
  Two runs of the pool, the second over the inventory unchanged and the file system as the
  first left it: the two final lines. \<open>checkFfmpeg()\<close> is called at the start of every
  run, so each run has its own \<open>hasFfmpeg\<close>.
\<close>

definition run_twice ::
  "jsstring \<Rightarrow> bool \<Rightarrow> bool \<Rightarrow> nat \<Rightarrow> media_entry list \<Rightarrow> jsstring set \<Rightarrow>
   event list \<Rightarrow> event list \<Rightarrow>
   ((int \<times> nat \<times> nat) option \<times> (int \<times> nat \<times> nat) option) option" where
  "run_twice rootDir hasFfmpeg1 hasFfmpeg2 n inventory files0 evs1 evs2 =
     (case run rootDir hasFfmpeg1 evs1 (init_pool inventory n files0) of
        None \<Rightarrow> None
      | Some s1 \<Rightarrow>
          (case run rootDir hasFfmpeg2 evs2 (init_pool inventory n (fsPaths s1)) of
             None \<Rightarrow> None
           | Some s2 \<Rightarrow> Some (summary s1, summary s2)))"

section \<open>Auxiliary notions for the proofs\<close>

text \<open>A path segment that \<open>path.join\<close> leaves as it is.\<close>

definition plain :: "jsstring \<Rightarrow> bool" where
  "plain s \<longleftrightarrow> s \<noteq> [] \<and> 47 \<notin> set s \<and> s \<noteq> lit ''.'' \<and> s \<noteq> lit ''..''"

text \<open>The extension \<open>getThumbnailPath\<close> chooses.\<close>

definition thumbExt :: "jsstring \<Rightarrow> media_type \<Rightarrow> jsstring" where
  "thumbExt mediaPath mediaType =
     (if mediaType = Video \<or> toLowerCase (extname mediaPath) = lit ''.gif'' then lit ''.webp''
      else if toLowerCase (extname mediaPath) = lit ''.png'' then lit ''.png''
      else lit ''.jpg'')"

text \<open>
  The invariant of the scan: the sizes of the inventory are pairwise distinct and are
  exactly the sizes recorded in \<open>seenSizes\<close>.
\<close>

definition scan_inv :: "scan \<Rightarrow> bool" where
  "scan_inv st \<longleftrightarrow>
     distinct (map size_bytes (media st)) \<and> seenSizes st = size_bytes ` set (media st)"

text \<open>A file name with one of the media extensions.\<close>

definition is_media_name :: "jsstring \<Rightarrow> bool" where
  "is_media_name name \<longleftrightarrow> toLowerCase (extname name) \<in> set MEDIA_EXTENSIONS"

text \<open>
  The specification's reading of discovery, in two stages. First the walk alone: the media
  files of the tree that can be \<open>stat\<close>ed, in the order in which a depth-first walk meets
  them (the entries of a directory in the order of its listing, a subdirectory where it is
  listed), each with the entry the inventory would hold for it.
\<close>

fun candidates :: "jsstring \<Rightarrow> jsstring \<Rightarrow> dirent list option \<Rightarrow> media_entry list"
  and candidates_in :: "jsstring \<Rightarrow> jsstring \<Rightarrow> dirent list \<Rightarrow> media_entry list"
where
  "candidates rootDir dir None = []"
| "candidates rootDir dir (Some entries) = candidates_in rootDir dir entries"
| "candidates_in rootDir dir [] = []"
| "candidates_in rootDir dir (FileEnt name stat # es) =
     (case stat of
        None \<Rightarrow> []
      | Some sz \<Rightarrow>
          if is_media_name name \<and> \<not> skipped_name name
          then [\<lparr>path = path_relative rootDir (path_join [dir, name]), size_bytes = sz,
                 mtype = (if toLowerCase (extname name) \<in> set VIDEO_EXTENSIONS then Video else Image)\<rparr>]
          else []) @
     candidates_in rootDir dir es"
| "candidates_in rootDir dir (DirEnt name listing # es) =
     (if skipped_name name then [] else candidates rootDir (path_join [dir, name]) listing) @
     candidates_in rootDir dir es"
| "candidates_in rootDir dir (OtherEnt name # es) = candidates_in rootDir dir es"

text \<open>
  Then the deduplication rule: a file of the walk is a duplicate when its byte size is the
  size of a file met earlier in the walk; the inventory keeps the others, in the order of
  the walk, and \<open>duplicatesSkipped\<close> counts the duplicates.
\<close>

definition previously_seen :: "media_entry list \<Rightarrow> nat \<Rightarrow> bool" where
  "previously_seen xs i \<longleftrightarrow> size_bytes (xs ! i) \<in> size_bytes ` set (take i xs)"

definition first_of_size :: "media_entry list \<Rightarrow> media_entry list" where
  "first_of_size xs = map (nth xs) (filter (\<lambda>i. \<not> previously_seen xs i) [0..<length xs])"

definition repeats_of_size :: "media_entry list \<Rightarrow> nat" where
  "repeats_of_size xs = length (filter (previously_seen xs) [0..<length xs])"

text \<open>What the scan does with one media file that it could \<open>stat\<close>.\<close>

definition push_entry :: "scan \<Rightarrow> media_entry \<Rightarrow> scan" where
  "push_entry st e =
     (if size_bytes e \<in> seenSizes st then st\<lparr>duplicatesSkipped := duplicatesSkipped st + 1\<rparr>
      else st\<lparr>seenSizes := insert (size_bytes e) (seenSizes st), media := media st @ [e]\<rparr>)"

text \<open>The \<open>k\<close> low decimal digits of \<open>n\<close>, most significant first.\<close>

fun decN :: "nat \<Rightarrow> nat \<Rightarrow> jsstring" where
  "decN 0 n = []"
| "decN (Suc k) n = decN k (n div 10) @ [digitChar (n mod 10)]"

text \<open>Powers of two with an integer exponent.\<close>

definition p2 :: "int \<Rightarrow> real" where
  "p2 e = 2 powr (of_int e)"


text \<open>The number of frames one invocation extracts when no extraction fails.\<close>

definition frameTotal :: "jsstring \<Rightarrow> real \<Rightarrow> nat" where
  "frameTotal videoPath duration =
     length (videoTimestamps videoPath duration) * videoFrames videoPath"

text \<open>
  The outcome of the ffmpeg call that extracts frame \<open>k\<close> of an invocation (counted from 0
  over the whole invocation): the frame belongs to segment \<open>k div framesPerSegment\<close>, is
  frame \<open>k mod framesPerSegment\<close> of it, and is written to \<open>frame_k.png\<close>.
\<close>

definition extraction :: "world \<Rightarrow> jsstring \<Rightarrow> real list \<Rightarrow> nat \<Rightarrow> nat \<Rightarrow> exec_result" where
  "extraction w tempDir timestamps fps k =
     extractFrame w (binary64 (timestamps ! (k div fps) + binary64 (real (k mod fps) / 30)))
       (path_join [tempDir, frameFile k])"

text \<open>
  An environment in which every call succeeds, and the files before an invocation; the
  examples below vary them.
\<close>

definition world_ok :: world where
  "world_ok =
     \<lparr>probe = Some (31 / 10), mkdtemp = Some (lit ''/tmp/video-thumb-Ab12Cd''),
      extractFrame = (\<lambda>time path. ExecOk), assemble = ExecOk,
      readdir_ok = True, unlink_ok = (\<lambda>path. True), rmdir_ok = True\<rparr>"

definition vstate0 :: vstate where
  "vstate0 = \<lparr>scratch = None, outputExists = False\<rparr>"

text \<open>The task a worker holds: the one it awaits or the one it dropped when it threw.\<close>

fun worker_item :: "worker \<Rightarrow> media_entry list" where
  "worker_item (Awaiting item known) = [item]"
| "worker_item (Rejected item) = [item]"
| "worker_item w = []"

definition in_flight :: "pool \<Rightarrow> media_entry list" where
  "in_flight s = concat (map worker_item (workers s))"

definition count_outcome :: "outcome \<Rightarrow> pool \<Rightarrow> nat" where
  "count_outcome out s = length (filter (\<lambda>eo. snd eo = out) (outcomes s))"

text \<open>
  The invariant of a run over the inventory \<open>inventory\<close> with \<open>n\<close> workers: every entry is in
  the queue, held by one worker or has its outcome recorded; the counters count the
  recorded outcomes; and once a worker has returned the queue is empty.
\<close>

definition pool_inv :: "media_entry list \<Rightarrow> nat \<Rightarrow> pool \<Rightarrow> bool" where
  "pool_inv inventory n s \<longleftrightarrow>
     mset (queue s) + mset (in_flight s) + mset (map fst (outcomes s)) = mset inventory \<and>
     completed s = length (outcomes s) \<and>
     skipped s = count_outcome Skipped s \<and>
     failed s = count_outcome Failed s \<and>
     length (workers s) = n \<and>
     (Finished \<in> set (workers s) \<longrightarrow> queue s = [])"

text \<open>Two entries of an inventory, for the examples.\<close>

definition example_video :: media_entry where
  "example_video = \<lparr>path = lit ''b.mp4'', size_bytes = 200, mtype = Video\<rparr>"

definition example_image :: media_entry where
  "example_image = \<lparr>path = lit ''a.jpg'', size_bytes = 100, mtype = Image\<rparr>"

text \<open>
  The schedule of the program for an inventory whose tasks the first worker takes: worker 0
  runs \<open>k\<close> rounds and is suspended or returns, the other seven workers find the queue
  empty and return, and if worker 0 awaits a promise it settles and worker 0 finds the
  queue empty.
\<close>

definition example_schedule :: "nat \<Rightarrow> exec_result list \<Rightarrow> event list" where
  "example_schedule k settled =
     replicate k (Pull 0 True world_ok) @
     map (\<lambda>i. Pull i True world_ok) [1, 2, 3, 4, 5, 6, 7] @
     concat (map (\<lambda>res. [Settle 0 res, Pull 0 True world_ok]) settled)"

text \<open>
  The invariant of a run that starts with the files \<open>F\<close>: the files only grow; a
  Generated task has its thumbnail, a Skipped one has it or is a video without decoder,
  and a task whose thumbnail was there at the start (or a video without decoder) can only
  be Skipped; a task held by a worker was dispatched, so neither holds for it.
\<close>

definition outcome_ok :: "jsstring \<Rightarrow> bool \<Rightarrow> jsstring set \<Rightarrow> jsstring set \<Rightarrow> media_entry \<times> outcome \<Rightarrow> bool" where
  "outcome_ok r h F fs eo \<longleftrightarrow>
     (snd eo = Generated \<longrightarrow> thumbPathOf r (fst eo) \<in> fs) \<and>
     (snd eo = Skipped \<longrightarrow> thumbPathOf r (fst eo) \<in> fs \<or> (mtype (fst eo) = Video \<and> \<not> h)) \<and>
     (thumbPathOf r (fst eo) \<in> F \<or> (mtype (fst eo) = Video \<and> \<not> h) \<longrightarrow> snd eo = Skipped)"

definition worker_ok :: "jsstring \<Rightarrow> bool \<Rightarrow> jsstring set \<Rightarrow> jsstring set \<Rightarrow> worker \<Rightarrow> bool" where
  "worker_ok r h F fs w \<longleftrightarrow>
     (\<forall>e \<in> set (worker_item w). thumbPathOf r e \<notin> F \<and> \<not> (mtype e = Video \<and> \<not> h)) \<and>
     (\<forall>e. w = Awaiting e (Some True) \<longrightarrow> thumbPathOf r e \<in> fs)"

definition cache_inv :: "jsstring \<Rightarrow> bool \<Rightarrow> jsstring set \<Rightarrow> pool \<Rightarrow> bool" where
  "cache_inv r h F s \<longleftrightarrow>
     F \<subseteq> fsPaths s \<and>
     list_all (outcome_ok r h F (fsPaths s)) (outcomes s) \<and>
     list_all (worker_ok r h F (fsPaths s)) (workers s)"

section \<open>Properties of hashPath\<close>

declare toStringRadix.simps [simp del]

subsection \<open>The 32-bit conversions\<close>

lemma toInt32_mod: "toInt32 x mod 2 ^ 32 = x mod 2 ^ 32"
proof -
  have "(x mod 2 ^ 32 - 2 ^ 32) mod 2 ^ 32 = x mod (2 ^ 32 :: int)"
    by (simp add: mod_simps)
  then show ?thesis by (simp add: toInt32_def Let_def)
qed

lemma uint16_mod: "uint (c :: 16 word) mod 2 ^ 32 = uint c"
proof -
  have "uint c < 2 ^ 16" using uint_bounded [of c] by simp
  then have "uint c < 2 ^ 32" by simp
  then show ?thesis by simp
qed

lemma xor_mod32: "(a XOR b) mod 2 ^ 32 = (a mod 2 ^ 32) XOR (b mod 2 ^ 32 :: int)"
  using take_bit_xor [of 32 a b] by (simp only: take_bit_eq_mod)

lemma hash_step_mod:
  "hash_step h c mod 2 ^ 32 = ((h * 32 + h) mod 2 ^ 32) XOR uint c"
proof -
  have sh: "js_shl h 5 = toInt32 (toInt32 h * 32)"
    by (simp add: js_shl_def toUint32_def)
  have "toInt32 (toInt32 h * 32) mod 2 ^ 32 = (h * 32) mod 2 ^ 32"
    by (rule trans [OF toInt32_mod]) (rule mod_mult_cong [OF toInt32_mod refl])
  then have A: "(js_shl h 5 + h) mod 2 ^ 32 = (h * 32 + h) mod 2 ^ 32"
    unfolding sh by (rule mod_add_cong) (rule refl)
  have "hash_step h c mod 2 ^ 32 =
        (toInt32 (js_shl h 5 + h) mod 2 ^ 32) XOR (toInt32 (uint c) mod 2 ^ 32)"
    unfolding hash_step_def js_xor_def by (rule xor_mod32)
  then show ?thesis
    by (simp only: toInt32_mod A uint16_mod)
qed

lemma djb2_step_int:
  "int (djb2_step a cp) = ((int a * 32 + int a) mod 2 ^ 32) XOR (int cp mod 2 ^ 32)"
proof -
  have "int (djb2_step a cp) = int ((push_bit 5 a + a) XOR cp) mod 2 ^ 32"
    by (simp add: djb2_step_def of_nat_mod)
  also have "int ((push_bit 5 a + a) XOR cp) = (int a * 32 + int a) XOR int cp"
    by (simp add: of_nat_xor_eq push_bit_eq_mult)
  finally show ?thesis by (simp only: xor_mod32)
qed

lemma ushr0_hash_step:
  "js_ushr0 (hash_step h c) = djb2_step (js_ushr0 h) (unat c)"
proof -
  have a: "int (js_ushr0 h) = h mod 2 ^ 32"
    by (simp add: js_ushr0_def toUint32_def)
  have "(h mod 2 ^ 32 * 32 + h mod 2 ^ 32) mod 2 ^ 32 = (h * 32 + h) mod 2 ^ 32"
    by (intro mod_add_cong mod_mult_cong mod_mod_trivial refl)
  then have "int (djb2_step (js_ushr0 h) (unat c)) = hash_step h c mod 2 ^ 32"
    by (simp only: djb2_step_int a hash_step_mod uint16_mod of_nat_unat)
  then show ?thesis
    by (simp add: js_ushr0_def toUint32_def)
qed

lemma hashPath_loop_fold:
  "hashPath_loop s h1 h2 = (r1, r2) \<Longrightarrow>
   js_ushr0 r1 = foldl djb2_step (js_ushr0 h1) (map unat s) \<and>
   js_ushr0 r2 = foldl djb2_step (js_ushr0 h2) (map unat s)"
  by (induction s arbitrary: h1 h2) (simp_all add: ushr0_hash_step)

subsection \<open>Hexadecimal rendering\<close>

lemma replicate_num: "replicate (numeral k) x = x # replicate (pred_numeral k) x"
  by (simp add: numeral_eq_Suc)

lemma hexN_num: "hexN (numeral k) n = hexN (pred_numeral k) (n div 16) @ [hexDigit (n mod 16)]"
  by (subst numeral_eq_Suc) (rule hexN.simps)

lemma lt16_cases:
  "d < 16 \<Longrightarrow> d \<in> {0, 1, 2, 3, 4, 5, 6, 7, 8, 9, 10, 11, 12, 13, 14, 15 :: nat}"
proof -
  assume "d < 16"
  then have "d \<in> {..<16}" by simp
  then show ?thesis
    by (simp add: lessThan_nat_numeral lessThan_Suc) blast
qed

lemma digitChar_hex: "d < 16 \<Longrightarrow> digitChar d = hexDigit d"
  by (drule lt16_cases) (auto simp: digitChar_def hexDigit_def lit_def)

lemma hexDigit_in: "d < 16 \<Longrightarrow> hexDigit d \<in> hexChars"
  by (drule lt16_cases) (auto simp: hexChars_def hexDigit_def lit_def)

lemma hexDigit_0: "hexDigit 0 = 48"
  by (simp add: hexDigit_def lit_def)

lemma length_hexN: "length (hexN k n) = k"
  by (induction k arbitrary: n) simp_all

lemma set_hexN: "set (hexN k n) \<subseteq> hexChars"
  by (induction k arbitrary: n) (simp_all add: hexDigit_in)

lemma hexN_zero: "hexN k 0 = replicate k 48"
  by (induction k) (simp_all add: hexDigit_0 replicate_append_same)

lemma padStart_char: "padStart n [c] s = replicate (n - length s) c @ s"
  by (simp add: padStart_def)

lemma hexN_toString:
  "n < 16 ^ k \<Longrightarrow> 0 < k \<Longrightarrow>
   length (toStringRadix 16 n) \<le> k \<and>
   hexN k n = replicate (k - length (toStringRadix 16 n)) 48 @ toStringRadix 16 n"
proof (induction k arbitrary: n)
  case 0
  then show ?case by simp
next
  case (Suc k)
  show ?case
  proof (cases "n < 16")
    case True
    then have "toStringRadix 16 n = [hexDigit n]"
      by (simp add: toStringRadix.simps [of 16 n] digitChar_hex)
    with True show ?thesis by (simp add: hexN_zero)
  next
    case False
    then have ts: "toStringRadix 16 n = toStringRadix 16 (n div 16) @ [hexDigit (n mod 16)]"
      by (simp add: toStringRadix.simps [of 16 n] digitChar_hex)
    from False Suc.prems have k: "0 < k"
      by (cases k) auto
    from Suc.prems have "n div 16 < 16 ^ k"
      by (simp add: less_mult_imp_div_less mult.commute)
    from Suc.IH [OF this k] show ?thesis
      by (simp add: ts Suc_diff_le)
  qed
qed

lemma padStart_toString:
  "n < 16 ^ k \<Longrightarrow> 0 < k \<Longrightarrow> padStart k (lit ''0'') (toStringRadix 16 n) = hexN k n"
  using hexN_toString [of n k] by (simp add: lit_def padStart_char)

lemma djb2_step_less: "djb2_step a cp < 16 ^ 8"
  by (simp add: djb2_step_def)

lemma foldl_djb2_less: "a < 16 ^ 8 \<Longrightarrow> foldl djb2_step a cps < 16 ^ 8"
  by (induction cps arbitrary: a) (simp_all add: djb2_step_less del: power_numeral)

lemma hashPath_eq_fingerprint: "hashPath str = fingerprint (map unat str)"
proof -
  obtain r1 r2 where r: "hashPath_loop str 5381 52711 = (r1, r2)"
    by (cases "hashPath_loop str 5381 52711")
  from hashPath_loop_fold [OF r]
  have a1: "js_ushr0 r1 = foldl djb2_step 5381 (map unat str)"
    and a2: "js_ushr0 r2 = foldl djb2_step 52711 (map unat str)"
    by (simp_all add: js_ushr0_def toUint32_def)
  have "js_ushr0 r1 < 16 ^ 8" "js_ushr0 r2 < 16 ^ 8"
    unfolding a1 a2 by (rule foldl_djb2_less, simp)+
  then show ?thesis
    by (simp only: hashPath_def r prod.case padStart_toString a1 a2 fingerprint_def)
qed

lemma length_fingerprint: "length (fingerprint cps) = 16"
  by (simp add: fingerprint_def length_hexN)

lemma set_fingerprint: "set (fingerprint cps) \<subseteq> hexChars"
  by (simp add: fingerprint_def set_hexN)

lemma unat_js_string_of:
  "\<forall>cp \<in> set cps. cp < 0x10000 \<Longrightarrow> map unat (js_string_of cps) = cps"
proof (induction cps)
  case Nil
  then show ?case by (simp add: js_string_of_def)
next
  case (Cons cp cps)
  then have "cp < 2 ^ 16" by simp
  then have "unat (of_nat cp :: 16 word) = cp"
    by (simp add: unat_of_nat)
  with Cons show ?case
    by (simp add: js_string_of_def utf16_encode_def)
qed

lemmas js_eval =
  hashPath_def lit_def hash_step_def js_xor_def js_shl_def toInt32_def toUint32_def
  js_ushr0_def padStart_def digitChar_def hexDigit_def fingerprint_def djb2_step_def
  js_string_of_def utf16_encode_def replicate_num hexN_num toStringRadix.simps

text \<open>
  C1 (as stated fails; amended): hashPath is a total function of its argument and equals the
  dual-djb2 reference applied to the UTF-16 code units of the path (the values of
  charCodeAt); its result always has exactly 16 characters, all lowercase hexadecimal
  digits. When every character of the path lies in the Basic Multilingual Plane the code
  units are the code points, and hashPath equals the reference applied to the code points.
\<close>

theorem hashPath_dual_djb2:
  "hashPath str = fingerprint (map unat str) \<and>
   length (hashPath str) = 16 \<and>
   set (hashPath str) \<subseteq> hexChars \<and>
   ((\<forall>cp \<in> set cps. cp < 0x10000) \<longrightarrow> hashPath (js_string_of cps) = fingerprint cps)"
  by (simp add: hashPath_eq_fingerprint length_fingerprint set_fingerprint unat_js_string_of)

theorem hashPath_dual_djb2_witness:
  "hashPath (js_string_of [112, 46, 106]) = fingerprint [112, 46, 106] \<and>
   hashPath (lit ''photos/img1.jpg'') = lit ''ea201fb4a14e2c16''"
proof -
  have "hashPath (lit ''photos/img1.jpg'') = lit ''ea201fb4a14e2c16''"
    by (simp add: js_eval)
  then show ?thesis
    using hashPath_dual_djb2 [of "[]" "[112, 46, 106]"] by simp
qed

text \<open>
  The claim as stated, with one update per character code point, fails for a path that
  holds a character outside the Basic Multilingual Plane: U+1F600 is the two code units
  D83D DE00 in JavaScript, and the loop runs twice.
\<close>

theorem hashPath_code_point_counterexample:
  "hashPath (js_string_of [0x1F600]) \<noteq> fingerprint [0x1F600]"
  by (simp add: js_eval)

section \<open>Properties of getThumbnailPath\<close>

lemmas path_eval = toLowerCase_def slice_def extname_def extname_result_def mark_end_def note_char_def Let_def normalize_def path_join_def
  normalizeString_def norm_step_def dirname_def path_relative_def
  IMAGE_EXTENSIONS_def VIDEO_EXTENSIONS_def MEDIA_EXTENSIONS_def OUTPUT_DATA_FILE_def
  OUTPUT_HTML_FILE_def THUMBNAILS_DIR_def

lemma split_slash_plain: "47 \<notin> set a \<Longrightarrow> split_slash a = [a]"
  by (induction a) auto

lemma split_slash_append:
  "47 \<notin> set a \<Longrightarrow> split_slash (a @ 47 # b) = a # split_slash b"
  by (induction a) auto

lemma split_join_slash:
  "segs \<noteq> [] \<Longrightarrow> \<forall>s \<in> set segs. 47 \<notin> set s \<Longrightarrow> split_slash (join_slash segs) = segs"
proof (induction segs rule: join_slash.induct)
  case 1
  then show ?case by simp
next
  case (2 s)
  then show ?case by (simp add: split_slash_plain)
next
  case (3 s t ss)
  then show ?case by (simp add: split_slash_append)
qed

lemma foldl_norm_step_plain:
  "\<forall>s \<in> set segs. plain s \<Longrightarrow> foldl (norm_step b) acc segs = acc @ segs"
  by (induction segs arbitrary: acc) (auto simp: norm_step_def plain_def)

lemma join_slash_Nil: "join_slash segs = [] \<longleftrightarrow> (\<forall>s \<in> set segs. s = []) \<and> length segs \<le> 1"
  by (induction segs rule: join_slash.induct) auto

lemma hd_join_slash: "segs \<noteq> [] \<Longrightarrow> hd segs \<noteq> [] \<Longrightarrow> hd (join_slash segs) = hd (hd segs)"
  by (induction segs rule: join_slash.induct) auto

lemma last_join_slash:
  "segs \<noteq> [] \<Longrightarrow> last segs \<noteq> [] \<Longrightarrow> last (join_slash segs) = last (last segs)"
proof (induction segs rule: join_slash.induct)
  case 1
  then show ?case by simp
next
  case (2 s)
  then show ?case by simp
next
  case (3 s t ss)
  then have "join_slash (t # ss) \<noteq> []"
    by (auto simp: join_slash_Nil)
  with 3 show ?case by simp
qed

lemma path_join_plain:
  assumes ne: "segs \<noteq> []" and pl: "\<forall>s \<in> set segs. plain s"
  shows "path_join segs = join_slash segs"
proof -
  let ?j = "join_slash segs"
  from pl have nonempty: "filter (\<lambda>a. a \<noteq> []) segs = segs"
    by (auto simp: plain_def filter_id_conv)
  from ne pl have hdp: "plain (hd segs)" and lastp: "plain (last segs)"
    by auto
  from ne pl have jne: "?j \<noteq> []"
    by (auto simp: join_slash_Nil plain_def)
  have "hd ?j = hd (hd segs)"
    using ne hdp by (simp add: hd_join_slash plain_def)
  moreover have "hd (hd segs) \<in> set (hd segs)"
    using hdp by (simp add: plain_def)
  ultimately have h: "hd ?j \<noteq> 47"
    using hdp by (metis plain_def)
  have "last ?j = last (last segs)"
    using ne lastp by (simp add: last_join_slash plain_def)
  moreover have "last (last segs) \<in> set (last segs)"
    using lastp by (simp add: plain_def)
  ultimately have l: "last ?j \<noteq> 47"
    using lastp by (metis plain_def)
  from pl have "\<forall>s \<in> set segs. 47 \<notin> set s"
    by (simp add: plain_def)
  then have "normalizeString ?j True = segs"
    using ne pl by (simp add: normalizeString_def split_join_slash foldl_norm_step_plain)
  then have "normalize ?j = ?j"
    using jne h l by (simp add: normalize_def)
  then show ?thesis
    using jne by (simp add: path_join_def nonempty)
qed

lemma hexChars_no_sep: "c \<in> hexChars \<Longrightarrow> c \<noteq> 47 \<and> c \<noteq> 46"
  by (auto simp: hexChars_def lit_def)

lemma plain_hex_char: "c \<in> hexChars \<Longrightarrow> plain [c]"
  by (auto simp: plain_def lit_def dest: hexChars_no_sep)

lemma plain_THUMBNAILS_DIR: "plain THUMBNAILS_DIR"
  by (simp add: plain_def THUMBNAILS_DIR_def lit_def)

lemma plain_hash_ext:
  assumes "length h = 16" "set h \<subseteq> hexChars"
    and "e = lit ''.webp'' \<or> e = lit ''.png'' \<or> e = lit ''.jpg''"
  shows "plain (h @ e)"
proof -
  from assms(2) have "47 \<notin> set h"
    using hexChars_no_sep by blast
  moreover from assms(3) have "47 \<notin> set e"
    by (auto simp: lit_def)
  ultimately have sep: "47 \<notin> set (h @ e)"
    by simp
  from assms(1) have len: "16 \<le> length (h @ e)"
    by simp
  then have "h @ e \<noteq> []"
    by auto
  moreover have "h @ e \<noteq> lit ''.''"
  proof
    assume "h @ e = lit ''.''"
    then have "length (h @ e) = 1" by (simp add: lit_def)
    with len show False by simp
  qed
  moreover have "h @ e \<noteq> lit ''..''"
  proof
    assume "h @ e = lit ''..''"
    then have "length (h @ e) = 2" by (simp add: lit_def)
    with len show False by simp
  qed
  ultimately show ?thesis
    using sep unfolding plain_def by blast
qed

lemma length_hashPath: "length (hashPath p) = 16"
  by (simp add: hashPath_eq_fingerprint length_fingerprint)

lemma set_hashPath: "set (hashPath p) \<subseteq> hexChars"
  by (simp add: hashPath_eq_fingerprint set_fingerprint)

lemma hashPath_nth: "i < 16 \<Longrightarrow> hashPath p ! i \<in> hexChars"
  using set_hashPath [of p] length_hashPath [of p] nth_mem [of i "hashPath p"] by auto

lemma getThumbnailPath_join:
  "getThumbnailPath p t =
     join_slash [THUMBNAILS_DIR, [hashPath p ! 0], [hashPath p ! 1], hashPath p @ thumbExt p t]"
proof -
  have e: "thumbExt p t = lit ''.webp'' \<or> thumbExt p t = lit ''.png'' \<or> thumbExt p t = lit ''.jpg''"
    by (simp add: thumbExt_def)
  have "\<forall>s \<in> set [THUMBNAILS_DIR, [hashPath p ! 0], [hashPath p ! 1], hashPath p @ thumbExt p t]. plain s"
    using plain_THUMBNAILS_DIR plain_hex_char [OF hashPath_nth [of 0 p]]
      plain_hex_char [OF hashPath_nth [of 1 p]]
      plain_hash_ext [OF length_hashPath set_hashPath e]
    by simp
  then have "path_join [THUMBNAILS_DIR, [hashPath p ! 0], [hashPath p ! 1], hashPath p @ thumbExt p t]
      = join_slash [THUMBNAILS_DIR, [hashPath p ! 0], [hashPath p ! 1], hashPath p @ thumbExt p t]"
    by (intro path_join_plain) simp_all
  then show ?thesis
    by (simp add: getThumbnailPath_def thumbExt_def Let_def)
qed

text \<open>
  C2: for every media entry the cache artifact path is
  \<open>thumbnails/<h[0]>/<h[1]>/<h><ext>\<close> with \<open>h\<close> the fingerprint of the entry's path, and
  \<open>ext\<close> is \<open>.webp\<close> for a video or a lowercased extension \<open>.gif\<close>, \<open>.png\<close> for a
  lowercased extension \<open>.png\<close>, and \<open>.jpg\<close> otherwise.
\<close>

theorem getThumbnailPath_layout:
  "getThumbnailPath mediaPath mediaType =
     lit ''thumbnails/'' @ [hashPath mediaPath ! 0] @ lit ''/'' @ [hashPath mediaPath ! 1] @
     lit ''/'' @ hashPath mediaPath @
     (if mediaType = Video \<or> toLowerCase (extname mediaPath) = lit ''.gif'' then lit ''.webp''
      else if toLowerCase (extname mediaPath) = lit ''.png'' then lit ''.png''
      else lit ''.jpg'')"
  unfolding getThumbnailPath_join
  by (simp add: thumbExt_def THUMBNAILS_DIR_def lit_def)

theorem getThumbnailPath_layout_witness:
  "getThumbnailPath (lit ''photos/img1.jpg'') Image = lit ''thumbnails/e/a/ea201fb4a14e2c16.jpg''"
proof -
  have h: "hashPath (lit ''photos/img1.jpg'') = lit ''ea201fb4a14e2c16''"
    by (simp add: js_eval)
  have e: "toLowerCase (extname (lit ''photos/img1.jpg'')) = lit ''.jpg''"
    by (simp add: lit_def path_eval)
  show ?thesis
    using getThumbnailPath_layout [of "lit ''photos/img1.jpg''" Image]
    unfolding h e by (simp add: lit_def)
qed

section \<open>Properties of findMedia\<close>

lemma scan_inv_scan0: "scan_inv scan0"
  by (simp add: scan_inv_def scan0_def)

lemma visit_file_inv: "scan_inv st \<Longrightarrow> scan_inv (visit_file r f n stat st)"
  by (auto simp: scan_inv_def visit_file_def Let_def split: option.splits)

lemma findMedia_inv:
  "scan_inv st \<Longrightarrow> scan_inv (findMedia r d l st)"
  "scan_inv st' \<Longrightarrow> scan_inv (findMedia_loop r d' es st')"
  by (induction r d l st and r d' es st' rule: findMedia_findMedia_loop.induct)
    (simp_all add: visit_file_inv)

lemma media_name_not_skipped: "is_media_name name \<Longrightarrow> \<not> skipped_name name"
proof
  assume m: "is_media_name name" and "skipped_name name"
  then consider "name = OUTPUT_DATA_FILE" | "name = OUTPUT_HTML_FILE" | "name = THUMBNAILS_DIR"
    by (auto simp: skipped_name_def)
  then show False
  proof cases
    case 1
    have "toLowerCase (extname OUTPUT_DATA_FILE) = lit ''.js''"
      by (simp add: lit_def path_eval)
    with m 1 show False by (simp add: is_media_name_def lit_def path_eval)
  next
    case 2
    have "toLowerCase (extname OUTPUT_HTML_FILE) = lit ''.html''"
      by (simp add: lit_def path_eval)
    with m 2 show False by (simp add: is_media_name_def lit_def path_eval)
  next
    case 3
    have "toLowerCase (extname THUMBNAILS_DIR) = []"
      by (simp add: lit_def path_eval)
    with m 3 show False by (simp add: is_media_name_def lit_def path_eval)
  qed
qed

lemma visit_file_seen:
  "is_media_name name \<Longrightarrow> sz \<in> seenSizes st \<Longrightarrow>
   visit_file r f name (Some sz) st = st\<lparr>duplicatesSkipped := duplicatesSkipped st + 1\<rparr>"
  by (simp add: visit_file_def is_media_name_def)

lemma visit_file_new:
  "is_media_name name \<Longrightarrow> sz \<notin> seenSizes st \<Longrightarrow>
   visit_file r f name (Some sz) st =
     st\<lparr>seenSizes := insert sz (seenSizes st),
        media := media st @
          [\<lparr>path = path_relative r f, size_bytes = sz,
            mtype = (if toLowerCase (extname name) \<in> set VIDEO_EXTENSIONS then Video else Image)\<rparr>]\<rparr>"
  by (simp add: visit_file_def is_media_name_def)

lemma three_files:
  assumes "is_media_name n1" "is_media_name n2" "is_media_name n3"
  shows "map size_bytes (media (findMedia r d
           (Some [FileEnt n1 (Some 100), FileEnt n2 (Some 200), FileEnt n3 (Some 100)]) scan0)) = [100, 200]"
    and "map path (media (findMedia r d
           (Some [FileEnt n1 (Some 100), FileEnt n2 (Some 200), FileEnt n3 (Some 100)]) scan0))
         = [path_relative r (path_join [d, n1]), path_relative r (path_join [d, n2])]"
    and "duplicatesSkipped (findMedia r d
           (Some [FileEnt n1 (Some 100), FileEnt n2 (Some 200), FileEnt n3 (Some 100)]) scan0) = 1"
  using assms
  by (simp_all add: media_name_not_skipped visit_file_seen visit_file_new scan0_def)

lemma findMedia_foldl:
  "findMedia r d l st = foldl push_entry st (candidates r d l)"
  "findMedia_loop r d' es st' = foldl push_entry st' (candidates_in r d' es)"
proof (induction r d l st and r d' es st' rule: findMedia_findMedia_loop.induct)
  case (4 rootDir dir name stat es st)
  show ?case
    by (simp add: 4 visit_file_def push_entry_def is_media_name_def Let_def split: option.splits)
qed simp_all

lemma previously_seen_snoc:
  "i < length xs \<Longrightarrow> previously_seen (xs @ [x]) i = previously_seen xs i"
  by (simp add: previously_seen_def nth_append)

lemma previously_seen_last:
  "previously_seen (xs @ [x]) (length xs) \<longleftrightarrow> size_bytes x \<in> size_bytes ` set xs"
  by (simp add: previously_seen_def)

lemma filter_upt_cong:
  "(\<And>i. i < n \<Longrightarrow> P i = Q i) \<Longrightarrow> filter P [0..<n] = filter Q [0..<n]"
  by (rule filter_cong) auto

lemma first_of_size_snoc:
  "first_of_size (xs @ [x]) =
     first_of_size xs @ (if size_bytes x \<in> size_bytes ` set xs then [] else [x])"
proof -
  have f: "filter (\<lambda>i. \<not> previously_seen (xs @ [x]) i) [0..<length xs] =
        filter (\<lambda>i. \<not> previously_seen xs i) [0..<length xs]"
    by (rule filter_upt_cong) (simp add: previously_seen_snoc)
  have m: "map (nth (xs @ [x])) (filter (\<lambda>i. \<not> previously_seen xs i) [0..<length xs]) =
        map (nth xs) (filter (\<lambda>i. \<not> previously_seen xs i) [0..<length xs])"
    by (rule map_cong) (auto simp: nth_append)
  show ?thesis
    by (simp add: first_of_size_def f m previously_seen_last)
qed

lemma repeats_of_size_snoc:
  "repeats_of_size (xs @ [x]) =
     repeats_of_size xs + (if size_bytes x \<in> size_bytes ` set xs then 1 else 0)"
proof -
  have f: "filter (previously_seen (xs @ [x])) [0..<length xs] =
        filter (previously_seen xs) [0..<length xs]"
    by (rule filter_upt_cong) (simp add: previously_seen_snoc)
  show ?thesis
    by (simp add: repeats_of_size_def f previously_seen_last)
qed

lemma foldl_push_entry:
  "foldl push_entry scan0 xs =
     \<lparr>seenSizes = size_bytes ` set xs, duplicatesSkipped = repeats_of_size xs,
      media = first_of_size xs\<rparr>"
proof (induction xs rule: rev_induct)
  case Nil
  show ?case by (simp add: scan0_def first_of_size_def repeats_of_size_def)
next
  case (snoc x xs)
  have "foldl push_entry scan0 (xs @ [x]) = push_entry (foldl push_entry scan0 xs) x"
    by simp
  also have "\<dots> = push_entry \<lparr>seenSizes = size_bytes ` set xs,
      duplicatesSkipped = repeats_of_size xs, media = first_of_size xs\<rparr> x"
    by (simp only: snoc)
  also have "\<dots> = \<lparr>seenSizes = size_bytes ` set (xs @ [x]),
      duplicatesSkipped = repeats_of_size (xs @ [x]), media = first_of_size (xs @ [x])\<rparr>"
    by (simp add: push_entry_def first_of_size_snoc repeats_of_size_snoc insert_absorb)
  finally show ?case .
qed

lemma findMedia_scan0:
  "findMedia r d l scan0 =
     \<lparr>seenSizes = size_bytes ` set (candidates r d l),
      duplicatesSkipped = repeats_of_size (candidates r d l),
      media = first_of_size (candidates r d l)\<rparr>"
  by (simp add: findMedia_foldl foldl_push_entry)

text \<open>
  C3: started with the module's initial state, discovery returns exactly what the
  deduplication rule gives for the walk of the tree, subdirectories included: the inventory
  holds the media files whose byte size was not met earlier in the walk, in the order of
  the walk, \<open>duplicatesSkipped\<close> counts the media files whose size was met earlier, and
  \<open>seenSizes\<close> holds the sizes of all of them. Hence no two entries of the inventory have
  the same byte size; and three media files of sizes 100, 200, 100 met in this order give
  the first and the second as the inventory and \<open>duplicatesSkipped = 1\<close>.
\<close>

theorem findMedia_dedup:
  "findMedia rootDir dir listing scan0 =
     \<lparr>seenSizes = size_bytes ` set (candidates rootDir dir listing),
      duplicatesSkipped = repeats_of_size (candidates rootDir dir listing),
      media = first_of_size (candidates rootDir dir listing)\<rparr> \<and>
   distinct (map size_bytes (media (findMedia rootDir dir listing scan0))) \<and>
   (is_media_name n1 \<and> is_media_name n2 \<and> is_media_name n3 \<longrightarrow>
      (let r = findMedia rootDir dir
                 (Some [FileEnt n1 (Some 100), FileEnt n2 (Some 200), FileEnt n3 (Some 100)]) scan0
       in map size_bytes (media r) = [100, 200] \<and>
          map path (media r) =
            [path_relative rootDir (path_join [dir, n1]),
             path_relative rootDir (path_join [dir, n2])] \<and>
          duplicatesSkipped r = 1))"
proof (intro conjI impI)
  show "findMedia rootDir dir listing scan0 =
     \<lparr>seenSizes = size_bytes ` set (candidates rootDir dir listing),
      duplicatesSkipped = repeats_of_size (candidates rootDir dir listing),
      media = first_of_size (candidates rootDir dir listing)\<rparr>"
    by (rule findMedia_scan0)
  show "distinct (map size_bytes (media (findMedia rootDir dir listing scan0)))"
    using findMedia_inv(1) [OF scan_inv_scan0, of rootDir dir listing]
    by (simp add: scan_inv_def)
next
  assume "is_media_name n1 \<and> is_media_name n2 \<and> is_media_name n3"
  then show "let r = findMedia rootDir dir
                 (Some [FileEnt n1 (Some 100), FileEnt n2 (Some 200), FileEnt n3 (Some 100)]) scan0
       in map size_bytes (media r) = [100, 200] \<and>
          map path (media r) =
            [path_relative rootDir (path_join [dir, n1]),
             path_relative rootDir (path_join [dir, n2])] \<and>
          duplicatesSkipped r = 1"
    unfolding Let_def using three_files [of n1 n2 n3 rootDir dir] by simp
qed

lemma upt_3: "[0..<3] = [0, 1, 2]" "[0..<4] = [0, 1, 2, 3]"
  by (simp_all add: upt_rec)

theorem findMedia_dedup_witness:
  "findMedia (lit ''/r'') (lit ''/r'')
      (Some [FileEnt (lit ''a.jpg'') (Some 100),
             DirEnt (lit ''sub'')
               (Some [FileEnt (lit ''b.PNG'') (Some 100), FileEnt (lit ''c.mp4'') (Some 300)]),
             FileEnt (lit ''d.gif'') (Some 300)]) scan0 =
     \<lparr>seenSizes = {100, 300}, duplicatesSkipped = 2,
      media = [\<lparr>path = lit ''a.jpg'', size_bytes = 100, mtype = Image\<rparr>,
               \<lparr>path = lit ''sub/c.mp4'', size_bytes = 300, mtype = Video\<rparr>]\<rparr> \<and>
   media (findMedia (lit ''/r'') (lit ''/r'')
      (Some [FileEnt (lit ''a.jpg'') (Some 100), FileEnt (lit ''b.PNG'') (Some 200),
             FileEnt (lit ''c.mp4'') (Some 100)]) scan0) =
     [\<lparr>path = lit ''a.jpg'', size_bytes = 100, mtype = Image\<rparr>,
      \<lparr>path = lit ''b.PNG'', size_bytes = 200, mtype = Image\<rparr>] \<and>
   duplicatesSkipped (findMedia (lit ''/r'') (lit ''/r'')
      (Some [FileEnt (lit ''a.jpg'') (Some 100), FileEnt (lit ''b.PNG'') (Some 200),
             FileEnt (lit ''c.mp4'') (Some 100)]) scan0) = 1"
proof -
  let ?tree = "Some [FileEnt (lit ''a.jpg'') (Some 100),
             DirEnt (lit ''sub'')
               (Some [FileEnt (lit ''b.PNG'') (Some 100), FileEnt (lit ''c.mp4'') (Some 300)]),
             FileEnt (lit ''d.gif'') (Some 300)]"
  have m: "is_media_name (lit ''a.jpg'')" "is_media_name (lit ''b.PNG'')"
    "is_media_name (lit ''c.mp4'')" "is_media_name (lit ''d.gif'')"
    by (simp_all add: is_media_name_def lit_def path_eval)
  have s: "\<not> skipped_name (lit ''sub'')"
    by (simp add: skipped_name_def lit_def OUTPUT_DATA_FILE_def OUTPUT_HTML_FILE_def
        THUMBNAILS_DIR_def)
  have j: "path_join [lit ''/r'', lit ''sub''] = lit ''/r/sub''"
    by (simp add: lit_def path_eval)
  have p: "path_relative (lit ''/r'') (path_join [lit ''/r'', lit ''a.jpg'']) = lit ''a.jpg''"
    "path_relative (lit ''/r'') (path_join [lit ''/r'', lit ''b.PNG'']) = lit ''b.PNG''"
    "path_relative (lit ''/r'') (path_join [lit ''/r'', lit ''d.gif'']) = lit ''d.gif''"
    "path_relative (lit ''/r'') (path_join [lit ''/r/sub'', lit ''b.PNG'']) = lit ''sub/b.PNG''"
    "path_relative (lit ''/r'') (path_join [lit ''/r/sub'', lit ''c.mp4'']) = lit ''sub/c.mp4''"
    by (simp_all add: lit_def path_eval)
  have k: "toLowerCase (extname (lit ''a.jpg'')) \<notin> set VIDEO_EXTENSIONS"
    "toLowerCase (extname (lit ''b.PNG'')) \<notin> set VIDEO_EXTENSIONS"
    "toLowerCase (extname (lit ''d.gif'')) \<notin> set VIDEO_EXTENSIONS"
    "toLowerCase (extname (lit ''c.mp4'')) \<in> set VIDEO_EXTENSIONS"
    by (simp_all add: lit_def path_eval)
  have c: "candidates (lit ''/r'') (lit ''/r'') ?tree =
      [\<lparr>path = lit ''a.jpg'', size_bytes = 100, mtype = Image\<rparr>,
       \<lparr>path = lit ''sub/b.PNG'', size_bytes = 100, mtype = Image\<rparr>,
       \<lparr>path = lit ''sub/c.mp4'', size_bytes = 300, mtype = Video\<rparr>,
       \<lparr>path = lit ''d.gif'', size_bytes = 300, mtype = Image\<rparr>]"
    using m k s by (simp add: media_name_not_skipped j p)
  note T = findMedia_dedup [of "lit ''/r''" "lit ''/r''" ?tree "lit ''a.jpg''" "lit ''b.PNG''"
      "lit ''c.mp4''"]
  from T have 1: "findMedia (lit ''/r'') (lit ''/r'') ?tree scan0 =
     \<lparr>seenSizes = {100, 300}, duplicatesSkipped = 2,
      media = [\<lparr>path = lit ''a.jpg'', size_bytes = 100, mtype = Image\<rparr>,
               \<lparr>path = lit ''sub/c.mp4'', size_bytes = 300, mtype = Video\<rparr>]\<rparr>"
    unfolding c by (simp add: first_of_size_def repeats_of_size_def previously_seen_def upt_3)
  have 2: "media (findMedia (lit ''/r'') (lit ''/r'')
      (Some [FileEnt (lit ''a.jpg'') (Some 100), FileEnt (lit ''b.PNG'') (Some 200),
             FileEnt (lit ''c.mp4'') (Some 100)]) scan0) =
     [\<lparr>path = lit ''a.jpg'', size_bytes = 100, mtype = Image\<rparr>,
      \<lparr>path = lit ''b.PNG'', size_bytes = 200, mtype = Image\<rparr>]"
    using m k by (simp add: media_name_not_skipped visit_file_seen visit_file_new scan0_def p)
  from T m have 3: "duplicatesSkipped (findMedia (lit ''/r'') (lit ''/r'')
      (Some [FileEnt (lit ''a.jpg'') (Some 100), FileEnt (lit ''b.PNG'') (Some 200),
             FileEnt (lit ''c.mp4'') (Some 100)]) scan0) = 1"
    by (simp add: Let_def)
  from 1 2 3 show ?thesis by blast
qed

section \<open>Properties of the sampling parameters\<close>

lemma hexChars_cases:
  "c \<in> hexChars \<Longrightarrow> c \<in> {48, 49, 50, 51, 52, 53, 54, 55, 56, 57, 97, 98, 99, 100, 101, 102}"
  by (simp add: hexChars_def lit_def) 

lemma hexValue_hexChars: "c \<in> hexChars \<Longrightarrow> hexValue c \<noteq> None \<and> digitValue c < 16"
  by (drule hexChars_cases) (auto simp: hexValue_def digitValue_def)

lemma hexChars_not_x: "c \<in> hexChars \<Longrightarrow> c \<noteq> 120 \<and> c \<noteq> 88"
  by (drule hexChars_cases) auto

lemma parseInt16_pair:
  assumes "c1 \<in> hexChars" "c2 \<in> hexChars"
  shows "parseInt16 [c1, c2] = Some (16 * digitValue c1 + digitValue c2)"
proof -
  from assms(2) have "strip0x [c1, c2] = [c1, c2]"
    using hexChars_not_x [of c2] by (simp add: strip0x_def lit_def)
  then show ?thesis
    using assms hexValue_hexChars [of c1] hexValue_hexChars [of c2]
    by (simp add: parseInt16_def)
qed

lemma take2_nth: "2 \<le> length xs \<Longrightarrow> take 2 xs = [xs ! 0, xs ! 1]"
proof -
  assume "2 \<le> length xs"
  then obtain a b r where "xs = a # b # r"
    by (cases xs; cases "tl xs") auto
  then show ?thesis by simp
qed

lemma slice_pairs:
  assumes "length h = 16"
  shows "slice h 0 2 = [h ! 0, h ! 1]" and "slice h 2 4 = [h ! 2, h ! 3]"
  using assms take2_nth [of h] take2_nth [of "drop 2 h"]
  by (simp_all add: slice_def)

lemma sampling_parameters:
  assumes "length h = 16" "set h \<subseteq> hexChars"
  shows "baseSegmentCount h = Some (hexPairValue h 0 mod 4 + 7)"
    and "framesPerSegment h = Some (hexPairValue h 1 mod 11 + 10)"
proof -
  from assms have "h ! 0 \<in> hexChars" "h ! 1 \<in> hexChars" "h ! 2 \<in> hexChars" "h ! 3 \<in> hexChars"
    using nth_mem [of _ h] by auto
  then show "baseSegmentCount h = Some (hexPairValue h 0 mod 4 + 7)"
    and "framesPerSegment h = Some (hexPairValue h 1 mod 11 + 10)"
    using assms(1)
    by (simp_all add: baseSegmentCount_def framesPerSegment_def slice_pairs parseInt16_pair
        hexPairValue_def)
qed

lemma segmentCount_bounds:
  "segmentCount b d = min (int b) (max 1 \<lfloor>d\<rfloor>)"
  "0 < b \<Longrightarrow> 1 \<le> segmentCount b d"
  "segmentCount b d \<le> int b"
  "segmentCount b d \<le> max 1 \<lfloor>d\<rfloor>"
  by (simp_all add: segmentCount_def)

section \<open>Scratch frame names\<close>

lemma lt10_cases: "d < 10 \<Longrightarrow> d \<in> {0, 1, 2, 3, 4, 5, 6, 7, 8, 9 :: nat}"
proof -
  assume "d < 10"
  then have "d \<in> {..<10}" by simp
  then show ?thesis
    by (simp add: lessThan_nat_numeral lessThan_Suc) blast
qed

lemma digitChar_dec: "d < 10 \<Longrightarrow> digitChar d = 48 + of_nat d"
  by (drule lt10_cases) (auto simp: digitChar_def lit_def)

lemma digitChar_mono: "i < j \<Longrightarrow> j < 10 \<Longrightarrow> digitChar i < digitChar j"
proof -
  assume ij: "i < j" and j: "j < 10"
  have "(of_nat (48 + i) :: 16 word) < of_nat (48 + j)"
    using ij j by (simp add: word_of_nat_less_iff take_bit_nat_eq_self del: of_nat_add)
  then show ?thesis
    using ij j by (simp add: digitChar_dec)
qed

lemma length_decN: "length (decN k n) = k"
  by (induction k arbitrary: n) simp_all

lemma decN_zero: "decN k 0 = replicate k 48"
  by (induction k) (simp_all add: digitChar_def lit_def replicate_append_same)

lemma decN_toString:
  "n < 10 ^ k \<Longrightarrow> 0 < k \<Longrightarrow>
   length (toStringRadix 10 n) \<le> k \<and>
   decN k n = replicate (k - length (toStringRadix 10 n)) 48 @ toStringRadix 10 n"
proof (induction k arbitrary: n)
  case 0
  then show ?case by simp
next
  case (Suc k)
  show ?case
  proof (cases "n < 10")
    case True
    then have "toStringRadix 10 n = [digitChar n]"
      by (simp add: toStringRadix.simps [of 10 n])
    with True show ?thesis by (simp add: decN_zero)
  next
    case False
    then have ts: "toStringRadix 10 n = toStringRadix 10 (n div 10) @ [digitChar (n mod 10)]"
      by (simp add: toStringRadix.simps [of 10 n])
    from False Suc.prems have k: "0 < k"
      by (cases k) auto
    from Suc.prems have "n div 10 < 10 ^ k"
      by (simp add: less_mult_imp_div_less mult.commute)
    from Suc.IH [OF this k] show ?thesis
      by (simp add: ts Suc_diff_le)
  qed
qed

lemma frameFile_decN: "i < 1000 \<Longrightarrow> frameFile i = lit ''frame_'' @ decN 3 i @ lit ''.png''"
  using decN_toString [of i 3] by (simp add: frameFile_def padStart_char lit_def)

lemma less_append_same: "ys < zs \<Longrightarrow> xs @ ys < xs @ (zs :: 'a :: linorder list)"
  by (induction xs) simp_all

lemma less_append_eq_length:
  "xs < ys \<Longrightarrow> length xs = length ys \<Longrightarrow> xs @ us < ys @ (vs :: 'a :: linorder list)"
proof (induction xs arbitrary: ys)
  case Nil
  then show ?case by simp
next
  case (Cons x xs)
  then obtain y ys' where "ys = y # ys'"
    by (cases ys) auto
  with Cons show ?case by auto
qed

lemma decN_mono: "i < j \<Longrightarrow> j < 10 ^ k \<Longrightarrow> decN k i < decN k j"
proof (induction k arbitrary: i j)
  case 0
  then show ?case by simp
next
  case (Suc k)
  from Suc.prems have jd: "j div 10 < 10 ^ k"
    by (simp add: less_mult_imp_div_less mult.commute)
  from Suc.prems have "i div 10 \<le> j div 10"
    by (simp add: div_le_mono)
  then consider "i div 10 < j div 10" | "i div 10 = j div 10" "i mod 10 < j mod 10"
    using Suc.prems(1) by (metis div_mult_mod_eq le_neq_implies_less nat_add_left_cancel_less)
  then show ?case
  proof cases
    case 1
    from Suc.IH [OF 1 jd] show ?thesis
      by (simp add: less_append_eq_length length_decN)
  next
    case 2
    then show ?thesis
      by (simp add: less_append_same digitChar_mono)
  qed
qed

lemma frameFile_mono: "i < j \<Longrightarrow> j < 1000 \<Longrightarrow> frameFile i < frameFile j"
  using decN_mono [of i j 3]
  by (simp add: frameFile_decN less_append_same less_append_eq_length length_decN)

lemma length_frameFile: "i < 1000 \<Longrightarrow> length (frameFile i) = 13"
  by (simp add: frameFile_decN length_decN lit_def)

section \<open>Properties of the double-precision rounding\<close>


declare bitlength.simps [simp del]




























section \<open>The sampling parameters of a fingerprint\<close>

lemma hexPairValue_less:
  assumes "length h = 16" "set h \<subseteq> hexChars" "k < 8"
  shows "hexPairValue h k < 256"
proof -
  from assms have "h ! (2 * k) \<in> hexChars" "h ! (2 * k + 1) \<in> hexChars"
    using nth_mem [of _ h] by auto
  then have "digitValue (h ! (2 * k)) < 16" "digitValue (h ! (2 * k + 1)) < 16"
    using hexValue_hexChars by blast+
  then show ?thesis by (simp add: hexPairValue_def)
qed

text \<open>
  C5: for every fingerprint (a string of 16 lowercase hexadecimal digits) and every
  duration, the segment count before clamping is the value of the first hex pair mod 4
  plus 7, in [7, 10]; the frames per segment are the value of the second hex pair mod 11
  plus 10, in [10, 20]; and the segment count used is
  \<open>min(baseSegmentCount, max(1, floor(duration)))\<close>, at least 1 and at most
  \<open>max(1, floor(duration))\<close>.
\<close>

theorem video_sampling_parameters:
  assumes "length h = 16" "set h \<subseteq> hexChars" "0 < duration"
  shows "\<exists>b f. baseSegmentCount h = Some b \<and> b = hexPairValue h 0 mod 4 + 7 \<and>
           hexPairValue h 0 < 256 \<and> 7 \<le> b \<and> b \<le> 10 \<and>
           framesPerSegment h = Some f \<and> f = hexPairValue h 1 mod 11 + 10 \<and>
           hexPairValue h 1 < 256 \<and> 10 \<le> f \<and> f \<le> 20 \<and>
           segmentCount b duration = min (int b) (max 1 \<lfloor>duration\<rfloor>) \<and>
           1 \<le> segmentCount b duration \<and>
           segmentCount b duration \<le> max 1 \<lfloor>duration\<rfloor>"
proof -
  have "hexPairValue h 0 mod 4 < 4" "hexPairValue h 1 mod 11 < 11"
    by simp_all
  then have "hexPairValue h 0 mod 4 + 7 \<le> 10" "hexPairValue h 1 mod 11 + 10 \<le> 20"
    by linarith+
  then show ?thesis
    using sampling_parameters [OF assms(1,2)] hexPairValue_less [OF assms(1,2), of 0]
      hexPairValue_less [OF assms(1,2), of 1]
    by (simp add: segmentCount_def)
qed

lemmas video_eval = baseSegmentCount_def framesPerSegment_def parseInt16_def strip0x_def
  hexValue_def digitValue_def slice_def hexPairValue_def segmentCount_def

theorem video_sampling_parameters_witness:
  "hashPath (lit ''/v/clip.mp4'') = lit ''270d5e0244be6c60'' \<and>
   baseSegmentCount (hashPath (lit ''/v/clip.mp4'')) = Some 10 \<and>
   framesPerSegment (hashPath (lit ''/v/clip.mp4'')) = Some 12 \<and>
   segmentCount 10 (31 / 10) = 3"
proof -
  have h: "hashPath (lit ''/v/clip.mp4'') = lit ''270d5e0244be6c60''"
    by (simp add: js_eval)
  have "length (lit ''270d5e0244be6c60'') = 16" "set (lit ''270d5e0244be6c60'') \<subseteq> hexChars"
    by (simp_all add: lit_def hexChars_def)
  from video_sampling_parameters [OF this, of "31 / 10"] show ?thesis
    unfolding h by (simp add: lit_def video_eval)
qed

section \<open>Properties of the segment timestamps\<close>

lemma length_timestamps_upto: "length (timestamps_upto rnd s iv k) = k"
  by (induction k) simp_all


lemma length_timestamps_with: "length (timestamps_with rnd d n) = nat n"
  by (simp add: timestamps_with_def Let_def length_timestamps_upto)























section \<open>Properties of the frame extraction loops\<close>

lemma frameFile_inj: "i < j \<Longrightarrow> j < 1000 \<Longrightarrow> frameFile i \<noteq> frameFile j"
  using frameFile_mono [of i j] by auto

lemma frameFile_fresh: "n < 1000 \<Longrightarrow> frameFile n \<notin> set (map frameFile [0..<n])"
proof
  assume n: "n < 1000" and "frameFile n \<in> set (map frameFile [0..<n])"
  then obtain i where "i < n" "frameFile n = frameFile i"
    by auto
  with frameFile_inj [of i n] n show False
    by simp
qed

lemma add_scratch_next:
  "n < 1000 \<Longrightarrow> scratch st = Some (map frameFile [0..<n]) \<Longrightarrow>
   add_scratch (frameFile n) st = st\<lparr>scratch := Some (map frameFile [0..<Suc n])\<rparr>"
  using frameFile_fresh [of n] by (simp add: add_scratch_def)

lemma outputExists_add_scratch: "outputExists (add_scratch name st) = outputExists st"
  by (simp add: add_scratch_def split: option.splits)

lemma scratch_add_scratch: "scratch (add_scratch name st) \<noteq> None \<longleftrightarrow> scratch st \<noteq> None"
  by (auto simp: add_scratch_def split: option.splits)

lemma scratch_add_scratch_Some:
  "(\<exists>y. scratch (add_scratch name st) = Some y) \<longleftrightarrow> (\<exists>y. scratch st = Some y)"
  using scratch_add_scratch [of name st] by auto

text \<open>The loops never touch the output file and never remove the scratch directory.\<close>

lemma frames_loop_keeps:
  "frames_loop w t ts f k fi st = (r, st') \<Longrightarrow>
   outputExists st' = outputExists st \<and> (scratch st \<noteq> None \<longrightarrow> scratch st' \<noteq> None)"
proof (induction k arbitrary: f fi st)
  case 0
  then show ?case by auto
next
  case (Suc k)
  show ?case
  proof (cases "extractFrame w (binary64 (ts + binary64 (real f / 30))) (path_join [t, frameFile fi])")
    case ExecOk
    with Suc.prems have
      "frames_loop w t ts (f + 1) k (fi + 1) (add_scratch (frameFile fi) st) = (r, st')"
      by simp
    from Suc.IH [OF this, unfolded outputExists_add_scratch scratch_add_scratch]
    show ?thesis .
  next
    case (ExecFail left)
    with Suc.prems show ?thesis
      by (auto simp: outputExists_add_scratch scratch_add_scratch_Some split: if_splits)
  qed
qed

lemma segments_loop_keeps:
  "segments_loop w t tss fps fi st = (r, st') \<Longrightarrow>
   outputExists st' = outputExists st \<and> (scratch st \<noteq> None \<longrightarrow> scratch st' \<noteq> None)"
proof (induction tss arbitrary: fi st)
  case Nil
  then show ?case by auto
next
  case (Cons ts tss)
  obtain r1 s1 where f: "frames_loop w t ts 0 fps fi st = (r1, s1)"
    by (cases "frames_loop w t ts 0 fps fi st")
  note k = frames_loop_keeps [OF f]
  show ?case
  proof (cases r1)
    case (Inl e)
    with Cons.prems f k show ?thesis by auto
  next
    case (Inr fi')
    with Cons.prems f have "segments_loop w t tss fps fi' s1 = (r, st')"
      by simp
    from Cons.IH [OF this] k show ?thesis by auto
  qed
qed

text \<open>When every extraction succeeds the frames are numbered consecutively.\<close>

lemma frames_loop_ok:
  assumes "\<forall>time p. extractFrame w time p = ExecOk"
  shows "fi + k \<le> 1000 \<Longrightarrow> scratch st = Some (map frameFile [0..<fi]) \<Longrightarrow>
         frames_loop w t ts f k fi st =
           (Inr (fi + k), st\<lparr>scratch := Some (map frameFile [0..<fi + k])\<rparr>)"
proof (induction k arbitrary: f fi st)
  case 0
  then show ?case by simp
next
  case (Suc k)
  from Suc.prems have fi: "fi < 1000" by simp
  have a: "add_scratch (frameFile fi) st = st\<lparr>scratch := Some (map frameFile [0..<Suc fi])\<rparr>"
    using add_scratch_next [OF fi Suc.prems(2)] .
  have "frames_loop w t ts (f + 1) k (fi + 1) (st\<lparr>scratch := Some (map frameFile [0..<Suc fi])\<rparr>) =
      (Inr (fi + 1 + k), st\<lparr>scratch := Some (map frameFile [0..<Suc fi]),
         scratch := Some (map frameFile [0..<fi + 1 + k])\<rparr>)"
    using Suc.prems(1) by (intro Suc.IH) simp_all
  then show ?case
    using assms by (simp add: a)
qed

lemma segments_loop_ok:
  assumes "\<forall>time p. extractFrame w time p = ExecOk"
  shows "fi + length tss * fps \<le> 1000 \<Longrightarrow> scratch st = Some (map frameFile [0..<fi]) \<Longrightarrow>
         segments_loop w t tss fps fi st =
           (Inr (fi + length tss * fps),
            st\<lparr>scratch := Some (map frameFile [0..<fi + length tss * fps])\<rparr>)"
proof (induction tss arbitrary: fi st)
  case Nil
  then show ?case by simp
next
  case (Cons ts tss)
  from Cons.prems have le: "fi + fps \<le> 1000" by simp
  have f: "frames_loop w t ts 0 fps fi st =
      (Inr (fi + fps), st\<lparr>scratch := Some (map frameFile [0..<fi + fps])\<rparr>)"
    using frames_loop_ok [OF assms le Cons.prems(2)] .
  have "segments_loop w t tss fps (fi + fps) (st\<lparr>scratch := Some (map frameFile [0..<fi + fps])\<rparr>) =
      (Inr (fi + fps + length tss * fps),
       st\<lparr>scratch := Some (map frameFile [0..<fi + fps]),
          scratch := Some (map frameFile [0..<fi + fps + length tss * fps])\<rparr>)"
    using Cons.prems(1) by (intro Cons.IH) (simp_all add: algebra_simps)
  then show ?case
    by (simp add: f algebra_simps)
qed

lemma sorted_frameFiles: "n \<le> 1000 \<Longrightarrow> sorted_wrt (<) (map frameFile [0..<n])"
  by (auto simp: sorted_wrt_map sorted_wrt_iff_nth_less frameFile_mono)

section \<open>Properties of the cleanup and of one invocation\<close>

lemma unlink_frames_ok:
  "\<forall>p. unlink_ok w p \<Longrightarrow>
   unlink_frames w t frames files = (True, filter (\<lambda>x. x \<notin> set frames) files)"
proof (induction frames arbitrary: files)
  case Nil
  then show ?case by simp
next
  case (Cons a frames)
  have "filter (\<lambda>x. x \<notin> set frames) (removeAll a files) =
        filter (\<lambda>x. x \<notin> set (a # frames)) files"
    by (induction files) auto
  with Cons show ?case by simp
qed

lemma outputExists_cleanup: "outputExists (cleanup w t st) = outputExists st"
  by (simp add: cleanup_def split: option.splits prod.splits bool.splits)

lemma cleanup_ok:
  assumes "readdir_ok w" "\<forall>p. unlink_ok w p" "rmdir_ok w"
  shows "scratch (cleanup w t st) = None"
proof (cases "scratch st")
  case None
  then show ?thesis by (simp add: cleanup_def)
next
  case (Some files)
  have "filter (\<lambda>x. x \<notin> set files) files = []"
    by (simp add: filter_empty_conv)
  then show ?thesis
    using assms Some by (simp add: cleanup_def unlink_frames_ok)
qed

lemma cleanup_unlink_fails:
  assumes "readdir_ok w" "\<forall>p. \<not> unlink_ok w p" "scratch st = Some files" "files \<noteq> []"
  shows "scratch (cleanup w t st) = Some files"
proof -
  from assms(4) obtain a fs where "files = a # fs"
    by (cases files) auto
  then show ?thesis
    using assms by (simp add: cleanup_def)
qed

lemma outputExists_assemble:
  "assemble_frames w st = (r, st') \<Longrightarrow>
   scratch st' = scratch st \<and>
   (r = Inr () \<longleftrightarrow> assemble w = ExecOk) \<and>
   (outputExists st' \<longleftrightarrow> outputExists st \<or> assemble w = ExecOk \<or> assemble w = ExecFail True)"
  by (cases "assemble w") (auto simp: assemble_frames_def split: if_splits)

lemma generateVideoThumbnail_unfold:
  assumes "getVideoDuration w = Some d" "mkdtemp w = Some t"
  shows "generateVideoThumbnail w p st =
     (case extract_and_assemble w t (videoTimestamps p d) (videoFrames p)
             (st\<lparr>scratch := Some []\<rparr>) of
        (r, st') \<Rightarrow> (r, cleanup w t st'))"
  using assms by (simp add: generateVideoThumbnail_def)

lemma frameTotal_eq:
  "baseSegmentCount (hashPath p) = Some b \<Longrightarrow> framesPerSegment (hashPath p) = Some f \<Longrightarrow>
   frameTotal p d = nat (segmentCount b d) * f"
  by (simp add: frameTotal_def videoTimestamps_def videoFrames_def segmentTimestamps_def
      length_timestamps_with)

lemma frameTotal_bounds:
  assumes "0 < d"
  shows "10 \<le> frameTotal p d" and "frameTotal p d \<le> 200"
proof -
  define b where "b = hexPairValue (hashPath p) 0 mod 4 + 7"
  define f where "f = hexPairValue (hashPath p) 1 mod 11 + 10"
  have "hexPairValue (hashPath p) 0 mod 4 < 4" "hexPairValue (hashPath p) 1 mod 11 < 11"
    by simp_all
  then have r: "7 \<le> b" "b \<le> 10" "10 \<le> f" "f \<le> 20"
    unfolding b_def f_def by linarith+
  have bf: "baseSegmentCount (hashPath p) = Some b" "7 \<le> b" "b \<le> 10"
    "framesPerSegment (hashPath p) = Some f" "10 \<le> f" "f \<le> 20"
    "1 \<le> segmentCount b d" "segmentCount b d \<le> int b"
    using sampling_parameters [OF length_hashPath set_hashPath, of p] r
    by (simp_all add: b_def f_def segmentCount_def)
  then have n: "1 \<le> nat (segmentCount b d)" "nat (segmentCount b d) \<le> 10"
    by simp_all
  have ft: "frameTotal p d = nat (segmentCount b d) * f"
    by (simp add: frameTotal_def videoTimestamps_def videoFrames_def bf segmentTimestamps_def
        length_timestamps_with)
  have "1 * 10 \<le> nat (segmentCount b d) * f"
    using n(1) bf(5) by (rule mult_le_mono)
  then show "10 \<le> frameTotal p d"
    by (simp add: ft)
  have "nat (segmentCount b d) * f \<le> 10 * 20"
    using n(2) bf(6) by (rule mult_le_mono)
  then show "frameTotal p d \<le> 200"
    by (simp add: ft)
qed

lemma extraction_ok:
  assumes "\<forall>time path. extractFrame w time path = ExecOk" "0 < d"
  shows "segments_loop w t (videoTimestamps p d) (videoFrames p) 0 (st\<lparr>scratch := Some []\<rparr>) =
         (Inr (frameTotal p d), st\<lparr>scratch := Some (map frameFile [0..<frameTotal p d])\<rparr>)"
proof -
  have "0 + frameTotal p d \<le> 1000"
    using frameTotal_bounds(2) [OF assms(2), of p] by simp
  then show ?thesis
    unfolding frameTotal_def
    using segments_loop_ok [OF assms(1), of 0 _ _ "st\<lparr>scratch := Some []\<rparr>" t]
    by simp
qed

section \<open>Failure and cleanup of one invocation\<close>

lemma video_plan_nonempty:
  assumes "0 < d"
  shows "videoTimestamps p d \<noteq> []" and "0 < videoFrames p"
proof -
  have "0 < frameTotal p d"
    using frameTotal_bounds(1) [OF assms, of p] by simp
  then show "videoTimestamps p d \<noteq> []" and "0 < videoFrames p"
    by (auto simp: frameTotal_def)
qed

lemma assemble_frames_cases:
  "assemble_frames w st = (r, st') \<Longrightarrow>
   (assemble w = ExecOk \<longrightarrow> r = Inr () \<and> outputExists st') \<and>
   (\<forall>left. assemble w = ExecFail left \<longrightarrow>
      r = Inl ExecError \<and> (outputExists st' \<longleftrightarrow> outputExists st \<or> left))"
  by (cases "assemble w") (auto simp: assemble_frames_def split: if_splits)

lemma frames_loop_result:
  "fst (frames_loop w t ts f k fi st) =
     (if \<forall>j<k. extractFrame w (binary64 (ts + binary64 (real (f + j) / 30)))
                   (path_join [t, frameFile (fi + j)]) = ExecOk
      then Inr (fi + k) else Inl ExecError)"
proof (induction k arbitrary: f fi st)
  case 0
  show ?case by simp
next
  case (Suc k)
  let ?P = "\<lambda>j. extractFrame w (binary64 (ts + binary64 (real (f + j) / 30)))
                   (path_join [t, frameFile (fi + j)]) = ExecOk"
  have split: "(\<forall>j<Suc k. ?P j) \<longleftrightarrow> ?P 0 \<and> (\<forall>j<k. ?P (Suc j))"
    by (rule All_less_Suc2)
  have shift: "f + 1 + j = f + Suc j" "fi + 1 + j = fi + Suc j" "fi + 1 + k = fi + Suc k" for j
    by simp_all
  show ?case
  proof (cases "extractFrame w (binary64 (ts + binary64 (real f / 30))) (path_join [t, frameFile fi])")
    case ExecOk
    then have p0: "?P 0"
      by simp
    have "fst (frames_loop w t ts f (Suc k) fi st) =
        fst (frames_loop w t ts (f + 1) k (fi + 1) (add_scratch (frameFile fi) st))"
      using ExecOk by simp
    also have "\<dots> = (if \<forall>j<k. ?P (Suc j) then Inr (fi + Suc k) else Inl ExecError)"
      unfolding Suc shift ..
    finally show ?thesis
      unfolding split using p0 by (simp only: simp_thms)
  next
    case (ExecFail left)
    then have "\<not> ?P 0"
      by simp
    then have "\<not> (\<forall>j<Suc k. ?P j)"
      unfolding split by simp
    moreover have "fst (frames_loop w t ts f (Suc k) fi st) = Inl ExecError"
      using ExecFail by simp
    ultimately show ?thesis
      by (simp only: if_False)
  qed
qed

lemma segments_loop_result:
  "fst (segments_loop w t tss fps fi st) =
     (if \<forall>seg<length tss. \<forall>j<fps.
           extractFrame w (binary64 (tss ! seg + binary64 (real j / 30)))
             (path_join [t, frameFile (fi + seg * fps + j)]) = ExecOk
      then Inr (fi + length tss * fps) else Inl ExecError)"
proof (induction tss arbitrary: fi st)
  case Nil
  show ?case by simp
next
  case (Cons ts tss)
  let ?P = "\<lambda>seg. \<forall>j<fps.
           extractFrame w (binary64 ((ts # tss) ! seg + binary64 (real j / 30)))
             (path_join [t, frameFile (fi + seg * fps + j)]) = ExecOk"
  have split: "(\<forall>seg<length (ts # tss). ?P seg) \<longleftrightarrow> ?P 0 \<and> (\<forall>seg<length tss. ?P (Suc seg))"
    using All_less_Suc2 [of "length tss" ?P] by simp
  have p0: "?P 0 \<longleftrightarrow> (\<forall>j<fps. extractFrame w (binary64 (ts + binary64 (real (0 + j) / 30)))
                   (path_join [t, frameFile (fi + j)]) = ExecOk)"
    by simp
  have shift: "fi + Suc seg * fps + j = fi + fps + seg * fps + j"
    "fi + length (ts # tss) * fps = fi + fps + length tss * fps" for seg j
    by simp_all
  obtain r1 s1 where f: "frames_loop w t ts 0 fps fi st = (r1, s1)"
    by (cases "frames_loop w t ts 0 fps fi st")
  from frames_loop_result [of w t ts 0 fps fi st] f
  have r1: "r1 = (if ?P 0 then Inr (fi + fps) else Inl ExecError)"
    unfolding p0 by simp
  show ?case
  proof (cases "?P 0")
    case True
    with r1 have "r1 = Inr (fi + fps)" by simp
    then have "fst (segments_loop w t (ts # tss) fps fi st) =
        fst (segments_loop w t tss fps (fi + fps) s1)"
      by (simp add: f)
    also have "\<dots> = (if \<forall>seg<length tss. ?P (Suc seg)
      then Inr (fi + length (ts # tss) * fps) else Inl ExecError)"
      unfolding Cons.IH shift nth_Cons_Suc ..
    finally show ?thesis
      unfolding split using True by auto
  next
    case False
    with r1 have "r1 = Inl ExecError" by simp
    then have "fst (segments_loop w t (ts # tss) fps fi st) = Inl ExecError"
      by (simp add: f)
    moreover from False have "\<not> (\<forall>seg<length (ts # tss). ?P seg)"
      unfolding split by simp
    ultimately show ?thesis
      by (simp only: if_False)
  qed
qed

lemma all_frames_iff:
  assumes "0 < (fps :: nat)"
  shows "(\<forall>seg<n. \<forall>j<fps. Q (seg * fps + j) seg j) \<longleftrightarrow>
         (\<forall>k<n * fps. Q k (k div fps) (k mod fps))"
proof
  assume l: "\<forall>seg<n. \<forall>j<fps. Q (seg * fps + j) seg j"
  show "\<forall>k<n * fps. Q k (k div fps) (k mod fps)"
  proof (intro allI impI)
    fix k assume "k < n * fps"
    then have "k div fps < n"
      by (rule less_mult_imp_div_less)
    moreover have "k mod fps < fps"
      using assms by simp
    ultimately have "Q (k div fps * fps + k mod fps) (k div fps) (k mod fps)"
      using l by blast
    then show "Q k (k div fps) (k mod fps)"
      by simp
  qed
next
  assume r: "\<forall>k<n * fps. Q k (k div fps) (k mod fps)"
  show "\<forall>seg<n. \<forall>j<fps. Q (seg * fps + j) seg j"
  proof (intro allI impI)
    fix seg j assume s: "seg < n" and j: "j < fps"
    from s have "Suc seg * fps \<le> n * fps"
      by (intro mult_le_mono1) simp
    with j have "seg * fps + j < n * fps"
      by simp
    with r have "Q (seg * fps + j) ((seg * fps + j) div fps) ((seg * fps + j) mod fps)"
      by blast
    then show "Q (seg * fps + j) seg j"
      using j by simp
  qed
qed

lemma segments_loop_extraction:
  assumes "0 < fps"
  shows "fst (segments_loop w t tss fps 0 st) =
     (if \<forall>k<length tss * fps. extraction w t tss fps k = ExecOk
      then Inr (length tss * fps) else Inl ExecError)"
  unfolding extraction_def
  using all_frames_iff [OF assms, of "length tss"
      "\<lambda>k seg j. extractFrame w (binary64 (tss ! seg + binary64 (real j / 30)))
             (path_join [t, frameFile k]) = ExecOk"]
    segments_loop_result [of w t tss fps 0 st]
  by simp

lemma frames_loop_assemble:
  "frames_loop (w\<lparr>assemble := a\<rparr>) t ts f k fi st = frames_loop w t ts f k fi st"
  by (induction k arbitrary: f fi st) (simp_all split: exec_result.splits)

lemma segments_loop_assemble:
  "segments_loop (w\<lparr>assemble := a\<rparr>) t tss fps fi st = segments_loop w t tss fps fi st"
  by (induction tss arbitrary: fi st)
    (simp_all add: frames_loop_assemble split: prod.splits sum.splits)

lemma unlink_frames_assemble:
  "unlink_frames (w\<lparr>assemble := a\<rparr>) t frames files = unlink_frames w t frames files"
  by (induction frames arbitrary: files) simp_all

lemma cleanup_assemble: "cleanup (w\<lparr>assemble := a\<rparr>) t st = cleanup w t st"
  by (simp add: cleanup_def unlink_frames_assemble split: option.splits prod.splits bool.splits)

lemma generateVideoThumbnail_assemble_unused:
  assumes "getVideoDuration w = Some d" "mkdtemp w = Some t"
    and "fst (segments_loop w t (videoTimestamps p d) (videoFrames p) 0 (st\<lparr>scratch := Some []\<rparr>))
         = Inl e"
  shows "generateVideoThumbnail (w\<lparr>assemble := a\<rparr>) p st = generateVideoThumbnail w p st"
proof -
  have d: "getVideoDuration (w\<lparr>assemble := a\<rparr>) = Some d"
    using assms(1) by (simp add: getVideoDuration_def)
  have t: "mkdtemp (w\<lparr>assemble := a\<rparr>) = Some t"
    using assms(2) by simp
  obtain x s where l: "segments_loop w t (videoTimestamps p d) (videoFrames p) 0
      (st\<lparr>scratch := Some []\<rparr>) = (x, s)"
    by (cases "segments_loop w t (videoTimestamps p d) (videoFrames p) 0 (st\<lparr>scratch := Some []\<rparr>)")
  with assms(3) have x: "x = Inl e" by simp
  show ?thesis
    unfolding generateVideoThumbnail_unfold [OF d t] generateVideoThumbnail_unfold [OF assms(1,2)]
    by (simp add: extract_and_assemble_def segments_loop_assemble l x cleanup_assemble)
qed

lemma getVideoDuration_pos: "getVideoDuration w = Some d \<Longrightarrow> 0 < d"
  by (auto simp: getVideoDuration_def split: option.splits if_splits)

text \<open>
  C7 (as stated fails; amended): when the ffmpeg call of any frame of the invocation fails,
  whichever frame of whichever segment it is, the task rejects with that error, the
  destination is left as it was and the assembly command is never run (the result does not
  depend on what it would do); when every extraction succeeds and the assembly command
  fails the task rejects, and since the program removes nothing at the destination a file
  exists there afterwards exactly when one existed before or the failed command left one;
  the task resolves exactly when every extraction and the assembly succeeded; and the
  worker that awaits a rejected task counts it as Failed.
\<close>

theorem video_failure_output:
  assumes "getVideoDuration w = Some d" "mkdtemp w = Some t"
    and "generateVideoThumbnail w p st = (r, st')"
  shows "((\<exists>k<frameTotal p d.
             extraction w t (videoTimestamps p d) (videoFrames p) k \<noteq> ExecOk) \<longrightarrow>
            r = Inl ExecError \<and> outputExists st' = outputExists st \<and>
            (\<forall>a. generateVideoThumbnail (w\<lparr>assemble := a\<rparr>) p st = (r, st'))) \<and>
         ((\<forall>k<frameTotal p d.
             extraction w t (videoTimestamps p d) (videoFrames p) k = ExecOk) \<and>
          assemble w \<noteq> ExecOk \<longrightarrow>
            r = Inl ExecError \<and>
            (outputExists st' \<longleftrightarrow> outputExists st \<or> assemble w = ExecFail True)) \<and>
         (r = Inr () \<longleftrightarrow>
            (\<forall>k<frameTotal p d.
               extraction w t (videoTimestamps p d) (videoFrames p) k = ExecOk) \<and>
            assemble w = ExecOk) \<and>
         (r = Inr () \<longrightarrow> outputExists st') \<and>
         (r \<noteq> Inr () \<longrightarrow>
            outcomes (settle rootDir i res item (Some (r = Inr ())) ps) =
              outcomes ps @ [(item, Failed)] \<and>
            failed (settle rootDir i res item (Some (r = Inr ())) ps) = failed ps + 1)"
proof -
  let ?all = "\<forall>k<frameTotal p d. extraction w t (videoTimestamps p d) (videoFrames p) k = ExecOk"
  have counted: "r \<noteq> Inr () \<longrightarrow>
      outcomes (settle rootDir i res item (Some (r = Inr ())) ps) =
        outcomes ps @ [(item, Failed)] \<and>
      failed (settle rootDir i res item (Some (r = Inr ())) ps) = failed ps + 1"
    by (simp add: settle_def set_worker_def record_outcome_def)
  obtain x s where l: "segments_loop w t (videoTimestamps p d) (videoFrames p) 0
      (st\<lparr>scratch := Some []\<rparr>) = (x, s)"
    by (cases "segments_loop w t (videoTimestamps p d) (videoFrames p) 0 (st\<lparr>scratch := Some []\<rparr>)")
  have "0 < videoFrames p"
    using video_plan_nonempty(2) [OF getVideoDuration_pos [OF assms(1)]] .
  from segments_loop_extraction [OF this, of w t "videoTimestamps p d" "st\<lparr>scratch := Some []\<rparr>"] l
  have x: "x = (if ?all then Inr (frameTotal p d) else Inl ExecError)"
    by (simp add: frameTotal_def)
  from segments_loop_keeps [OF l] have o: "outputExists s = outputExists st"
    by simp
  show ?thesis
  proof (cases ?all)
    case False
    with x have xe: "x = Inl ExecError" by simp
    with l assms have 1: "r = Inl ExecError \<and> outputExists st' = outputExists st"
      using o
      by (auto simp: generateVideoThumbnail_unfold extract_and_assemble_def outputExists_cleanup)
    have "fst (segments_loop w t (videoTimestamps p d) (videoFrames p) 0 (st\<lparr>scratch := Some []\<rparr>))
         = Inl ExecError"
      using l xe by simp
    from generateVideoThumbnail_assemble_unused [OF assms(1,2) this]
    have 2: "\<forall>a. generateVideoThumbnail (w\<lparr>assemble := a\<rparr>) p st = (r, st')"
      using assms(3) by simp
    from False 1 2 counted show ?thesis
      by auto
  next
    case True
    with x have xi: "x = Inr (frameTotal p d)" by simp
    obtain r1 s1 where a: "assemble_frames w s = (r1, s1)"
      by (cases "assemble_frames w s")
    from xi l assms a have "r = r1" "st' = cleanup w t s1"
      by (auto simp: generateVideoThumbnail_unfold extract_and_assemble_def)
    with assemble_frames_cases [OF a] o have
      "(assemble w \<noteq> ExecOk \<longrightarrow>
          r = Inl ExecError \<and>
          (outputExists st' \<longleftrightarrow> outputExists st \<or> assemble w = ExecFail True)) \<and>
       (r = Inr () \<longleftrightarrow> assemble w = ExecOk) \<and> (r = Inr () \<longrightarrow> outputExists st')"
      by (cases "assemble w") (auto simp: outputExists_cleanup)
    with True counted show ?thesis
      by auto
  qed
qed

lemma world_ok_simps:
  "getVideoDuration (world_ok\<lparr>assemble := a\<rparr>) = Some (31 / 10)"
  "getVideoDuration (world_ok\<lparr>unlink_ok := u\<rparr>) = Some (31 / 10)"
  "getVideoDuration (world_ok\<lparr>extractFrame := x\<rparr>) = Some (31 / 10)"
  "getVideoDuration world_ok = Some (31 / 10)"
  by (simp_all add: world_ok_def getVideoDuration_def)

lemma example_clip_frameTotal: "frameTotal (lit ''/v/clip.mp4'') (31 / 10) = 36"
proof -
  have h: "hashPath (lit ''/v/clip.mp4'') = lit ''270d5e0244be6c60''"
    by (simp add: js_eval)
  have b: "baseSegmentCount (hashPath (lit ''/v/clip.mp4'')) = Some 10"
    and f: "framesPerSegment (hashPath (lit ''/v/clip.mp4'')) = Some 12"
    unfolding h by (simp_all add: lit_def video_eval)
  show ?thesis
    unfolding frameTotal_eq [OF b f] by (simp add: segmentCount_def)
qed

lemma example_frame_25:
  "path_join [lit ''/tmp/video-thumb-Ab12Cd'', frameFile 25] =
   lit ''/tmp/video-thumb-Ab12Cd/frame_025.png''"
proof -
  have "frameFile 25 = lit ''frame_025.png''"
    by (simp add: frameFile_def padStart_def lit_def digitChar_def toStringRadix.simps
        replicate_num)
  then show ?thesis
    by (simp add: lit_def path_eval)
qed

theorem video_failure_output_witness:
  "fst (generateVideoThumbnail
         (world_ok\<lparr>extractFrame := (\<lambda>time path.
            if path = lit ''/tmp/video-thumb-Ab12Cd/frame_025.png'' then ExecFail True else ExecOk)\<rparr>)
         (lit ''/v/clip.mp4'') vstate0) = Inl ExecError \<and>
   \<not> outputExists (snd (generateVideoThumbnail
         (world_ok\<lparr>extractFrame := (\<lambda>time path.
            if path = lit ''/tmp/video-thumb-Ab12Cd/frame_025.png'' then ExecFail True else ExecOk)\<rparr>)
         (lit ''/v/clip.mp4'') vstate0)) \<and>
   fst (generateVideoThumbnail (world_ok\<lparr>assemble := ExecFail False\<rparr>)
         (lit ''/v/clip.mp4'') vstate0) = Inl ExecError \<and>
   \<not> outputExists (snd (generateVideoThumbnail (world_ok\<lparr>assemble := ExecFail False\<rparr>)
         (lit ''/v/clip.mp4'') vstate0))"
proof -
  let ?w = "world_ok\<lparr>extractFrame := (\<lambda>time path.
            if path = lit ''/tmp/video-thumb-Ab12Cd/frame_025.png'' then ExecFail True else ExecOk)\<rparr>"
  let ?v = "world_ok\<lparr>assemble := ExecFail False\<rparr>"
  let ?p = "lit ''/v/clip.mp4''"
  let ?t = "lit ''/tmp/video-thumb-Ab12Cd''"
  have d: "getVideoDuration ?w = Some (31 / 10)" "getVideoDuration ?v = Some (31 / 10)"
    by (rule world_ok_simps)+
  have t: "mkdtemp ?w = Some ?t" "mkdtemp ?v = Some ?t"
    by (simp_all add: world_ok_def)
  have g: "generateVideoThumbnail w ?p vstate0 =
      (fst (generateVideoThumbnail w ?p vstate0), snd (generateVideoThumbnail w ?p vstate0))" for w
    by simp
  have "extraction ?w ?t (videoTimestamps ?p (31 / 10)) (videoFrames ?p) 25 = ExecFail True"
    by (simp add: extraction_def example_frame_25)
  then have x: "\<exists>k<frameTotal ?p (31 / 10).
      extraction ?w ?t (videoTimestamps ?p (31 / 10)) (videoFrames ?p) k \<noteq> ExecOk"
    unfolding example_clip_frameTotal by (intro exI [of _ 25]) simp
  have y: "\<forall>k<frameTotal ?p (31 / 10).
      extraction ?v ?t (videoTimestamps ?p (31 / 10)) (videoFrames ?p) k = ExecOk"
    by (simp add: extraction_def world_ok_def)
  have a: "assemble ?v \<noteq> ExecOk" "assemble ?v \<noteq> ExecFail True"
    by simp_all
  from video_failure_output [OF d(1) t(1) g] x
  have 1: "fst (generateVideoThumbnail ?w ?p vstate0) = Inl ExecError \<and>
      outputExists (snd (generateVideoThumbnail ?w ?p vstate0)) = outputExists vstate0"
    by blast
  from video_failure_output [OF d(2) t(2) g] y a
  have 2: "fst (generateVideoThumbnail ?v ?p vstate0) = Inl ExecError \<and>
      (outputExists (snd (generateVideoThumbnail ?v ?p vstate0)) \<longleftrightarrow> outputExists vstate0)"
    by blast
  from 1 2 show ?thesis
    by (simp add: vstate0_def)
qed

text \<open>
  The claim as stated fails when the assembly command fails after it has created its
  output file (a timeout, for instance): the task is rejected and the file stays.
\<close>

theorem video_partial_output_counterexample:
  "fst (generateVideoThumbnail (world_ok\<lparr>assemble := ExecFail True\<rparr>)
         (lit ''/v/clip.mp4'') vstate0) = Inl ExecError \<and>
   outputExists (snd (generateVideoThumbnail (world_ok\<lparr>assemble := ExecFail True\<rparr>)
         (lit ''/v/clip.mp4'') vstate0))"
proof -
  let ?w = "world_ok\<lparr>assemble := ExecFail True\<rparr>"
  let ?p = "lit ''/v/clip.mp4''"
  let ?t = "lit ''/tmp/video-thumb-Ab12Cd''"
  have d: "getVideoDuration ?w = Some (31 / 10)"
    by (rule world_ok_simps)
  have t: "mkdtemp ?w = Some ?t"
    by (simp add: world_ok_def)
  have x: "\<forall>time path. extractFrame ?w time path = ExecOk"
    by (simp add: world_ok_def)
  have a: "assemble ?w = ExecFail True"
    by simp
  show ?thesis
    unfolding generateVideoThumbnail_unfold [OF d t] extract_and_assemble_def
      extraction_ok [OF x, of "31 / 10", simplified]
    by (simp add: assemble_frames_def a outputExists_cleanup)
qed

text \<open>
  C8 (as stated fails; amended): whatever the probe, the extractions and the assembly do,
  when the file-system calls of the cleanup itself succeed no scratch directory remains
  after the invocation.
\<close>

theorem video_scratch_cleanup:
  assumes "readdir_ok w" "\<forall>path. unlink_ok w path" "rmdir_ok w" "scratch st = None"
  shows "scratch (snd (generateVideoThumbnail w p st)) = None"
proof (cases "getVideoDuration w")
  case None
  with assms(4) show ?thesis by (simp add: generateVideoThumbnail_def)
next
  case (Some d)
  show ?thesis
  proof (cases "mkdtemp w")
    case None
    with Some assms(4) show ?thesis by (simp add: generateVideoThumbnail_def)
  next
    case t: (Some t)
    show ?thesis
      unfolding generateVideoThumbnail_unfold [OF Some t]
      by (simp add: cleanup_ok [OF assms(1-3)] split: prod.splits)
  qed
qed

theorem video_scratch_cleanup_witness:
  "scratch (snd (generateVideoThumbnail (world_ok\<lparr>extractFrame := (\<lambda>time path. ExecFail True)\<rparr>)
      (lit ''/v/clip.mp4'') vstate0)) = None"
  by (rule video_scratch_cleanup) (simp_all add: world_ok_def vstate0_def)

text \<open>
  The claim as stated fails when a call of the cleanup throws: the error is caught and
  ignored, and the scratch directory stays with the frames in it.
\<close>

theorem video_scratch_cleanup_counterexample:
  "scratch (snd (generateVideoThumbnail (world_ok\<lparr>unlink_ok := (\<lambda>path. False)\<rparr>)
      (lit ''/v/clip.mp4'') vstate0)) \<noteq> None"
proof -
  let ?w = "world_ok\<lparr>unlink_ok := (\<lambda>path. False)\<rparr>"
  let ?p = "lit ''/v/clip.mp4''"
  let ?t = "lit ''/tmp/video-thumb-Ab12Cd''"
  have d: "getVideoDuration ?w = Some (31 / 10)"
    by (rule world_ok_simps)
  have t: "mkdtemp ?w = Some ?t"
    by (simp add: world_ok_def)
  have x: "\<forall>time path. extractFrame ?w time path = ExecOk"
    by (simp add: world_ok_def)
  have a: "assemble ?w = ExecOk" "readdir_ok ?w" "\<forall>path. \<not> unlink_ok ?w path"
    by (simp_all add: world_ok_def)
  have "0 < frameTotal ?p (31 / 10)"
    using frameTotal_bounds(1) [of "31 / 10" ?p] by simp
  then have ne: "map frameFile [0..<frameTotal ?p (31 / 10)] \<noteq> []"
    by simp
  have "scratch (cleanup ?w ?t \<lparr>scratch = Some (map frameFile [0..<frameTotal ?p (31 / 10)]),
      outputExists = True\<rparr>) = Some (map frameFile [0..<frameTotal ?p (31 / 10)])"
    by (rule cleanup_unlink_fails [OF a(2,3) _ ne]) simp
  then show ?thesis
    unfolding generateVideoThumbnail_unfold [OF d t] extract_and_assemble_def
      extraction_ok [OF x, of "31 / 10", simplified]
    by (simp add: assemble_frames_def a vstate0_def)
qed

section \<open>Order of the scratch frames\<close>

text \<open>
  C10: one invocation extracts \<open>segmentCount * framesPerSegment \<le> 10 * 20 = 200\<close> frames,
  fewer than 1000; below 1000 the scratch file names \<open>frame_NNN.png\<close> have exactly three
  digits, are pairwise distinct and increase lexicographically with the frame index; and
  the frames are written with the indices \<open>0, 1, 2, \<dots>\<close> in the order of extraction
  (segment by segment, frame by frame), so the sorted order of the names is the order of
  extraction.
\<close>

theorem scratch_frame_order:
  "(0 < d \<longrightarrow>
      frameTotal p d \<le> 200 \<and> frameTotal p d < 1000 \<and>
      (\<forall>b f. baseSegmentCount (hashPath p) = Some b \<and> framesPerSegment (hashPath p) = Some f
         \<longrightarrow> frameTotal p d = nat (segmentCount b d) * f)) \<and>
   (i < j \<and> j < 1000 \<longrightarrow>
      frameFile i < frameFile j \<and> frameFile i \<noteq> frameFile j \<and>
      frameFile i = lit ''frame_'' @ decN 3 i @ lit ''.png'' \<and>
      frameFile j = lit ''frame_'' @ decN 3 j @ lit ''.png'') \<and>
   (0 < d \<and> (\<forall>time path. extractFrame w time path = ExecOk) \<longrightarrow>
      segments_loop w t (videoTimestamps p d) (videoFrames p) 0 (st\<lparr>scratch := Some []\<rparr>) =
        (Inr (frameTotal p d), st\<lparr>scratch := Some (map frameFile [0..<frameTotal p d])\<rparr>) \<and>
      sorted_wrt (<) (map frameFile [0..<frameTotal p d]))"
proof (intro conjI impI)
  assume d: "0 < d"
  show "frameTotal p d \<le> 200"
    using d by (rule frameTotal_bounds(2))
  then show "frameTotal p d < 1000"
    by simp
  show "\<forall>b f. baseSegmentCount (hashPath p) = Some b \<and> framesPerSegment (hashPath p) = Some f
         \<longrightarrow> frameTotal p d = nat (segmentCount b d) * f"
    by (simp add: frameTotal_eq)
next
  assume ij: "i < j \<and> j < 1000"
  then show "frameFile i < frameFile j"
    by (simp add: frameFile_mono)
  from ij show "frameFile i \<noteq> frameFile j"
    by (simp add: frameFile_inj)
  from ij show "frameFile i = lit ''frame_'' @ decN 3 i @ lit ''.png''"
    by (simp add: frameFile_decN)
  from ij show "frameFile j = lit ''frame_'' @ decN 3 j @ lit ''.png''"
    by (simp add: frameFile_decN)
next
  assume a: "0 < d \<and> (\<forall>time path. extractFrame w time path = ExecOk)"
  then show "segments_loop w t (videoTimestamps p d) (videoFrames p) 0 (st\<lparr>scratch := Some []\<rparr>) =
        (Inr (frameTotal p d), st\<lparr>scratch := Some (map frameFile [0..<frameTotal p d])\<rparr>)"
    by (simp add: extraction_ok)
  from a have "frameTotal p d \<le> 1000"
    using frameTotal_bounds(2) [of d p] by simp
  then show "sorted_wrt (<) (map frameFile [0..<frameTotal p d])"
    by (rule sorted_frameFiles)
qed

theorem scratch_frame_order_witness:
  "frameTotal (lit ''/v/clip.mp4'') (31 / 10) = 36 \<and>
   frameFile 9 = lit ''frame_009.png'' \<and> frameFile 10 = lit ''frame_010.png'' \<and>
   frameFile 9 < frameFile 10 \<and>
   fst (segments_loop world_ok (lit ''/tmp/video-thumb-Ab12Cd'')
          (videoTimestamps (lit ''/v/clip.mp4'') (31 / 10)) (videoFrames (lit ''/v/clip.mp4'')) 0
          (vstate0\<lparr>scratch := Some []\<rparr>)) = Inr 36"
proof -
  have h: "hashPath (lit ''/v/clip.mp4'') = lit ''270d5e0244be6c60''"
    by (simp add: js_eval)
  have b: "baseSegmentCount (hashPath (lit ''/v/clip.mp4'')) = Some 10"
    and f: "framesPerSegment (hashPath (lit ''/v/clip.mp4'')) = Some 12"
    unfolding h by (simp_all add: lit_def video_eval)
  have n: "frameFile 9 = lit ''frame_009.png''" "frameFile 10 = lit ''frame_010.png''"
    by (simp_all add: frameFile_def padStart_def lit_def digitChar_def toStringRadix.simps
        replicate_num)
  have x: "\<forall>time path. extractFrame world_ok time path = ExecOk"
    by (simp add: world_ok_def)
  note T = scratch_frame_order [of "31 / 10" "lit ''/v/clip.mp4''" 9 10 world_ok
      "lit ''/tmp/video-thumb-Ab12Cd''" vstate0]
  have ij: "(9 :: nat) < 10 \<and> (10 :: nat) < 1000" and dpos: "(0 :: real) < 31 / 10"
    by simp_all
  from T dpos b f have "frameTotal (lit ''/v/clip.mp4'') (31 / 10) = nat (segmentCount 10 (31 / 10)) * 12"
    by blast
  then have 1: "frameTotal (lit ''/v/clip.mp4'') (31 / 10) = 36"
    by (simp add: segmentCount_def)
  from T ij have 2: "frameFile 9 < frameFile 10"
    by blast
  from T dpos x have "segments_loop world_ok (lit ''/tmp/video-thumb-Ab12Cd'')
          (videoTimestamps (lit ''/v/clip.mp4'') (31 / 10)) (videoFrames (lit ''/v/clip.mp4'')) 0
          (vstate0\<lparr>scratch := Some []\<rparr>) =
      (Inr (frameTotal (lit ''/v/clip.mp4'') (31 / 10)),
       vstate0\<lparr>scratch := Some (map frameFile [0..<frameTotal (lit ''/v/clip.mp4'') (31 / 10)])\<rparr>)"
    by blast
  then have 3: "fst (segments_loop world_ok (lit ''/tmp/video-thumb-Ab12Cd'')
          (videoTimestamps (lit ''/v/clip.mp4'') (31 / 10)) (videoFrames (lit ''/v/clip.mp4'')) 0
          (vstate0\<lparr>scratch := Some []\<rparr>)) = Inr 36"
    by (simp add: 1)
  from 1 n 2 3 show ?thesis
    by blast
qed

section \<open>Conservation of the tasks in the worker pool\<close>

lemma mset_concat_update:
  "i < length ws \<Longrightarrow>
   mset (concat (map f (ws[i := w]))) + mset (f (ws ! i)) = mset (concat (map f ws)) + mset (f w)"
proof (induction ws arbitrary: i)
  case Nil
  then show ?case by simp
next
  case (Cons a ws)
  show ?case
  proof (cases i)
    case 0
    then show ?thesis by simp
  next
    case (Suc j)
    with Cons.prems have "j < length ws" by simp
    from Cons.IH [OF this] show ?thesis
      by (simp add: Suc ac_simps)
  qed
qed

lemma in_flight_set_worker:
  "i < length (workers s) \<Longrightarrow> worker_item (workers s ! i) = [] \<Longrightarrow>
   mset (in_flight (set_worker i w s)) = mset (in_flight s) + mset (worker_item w)"
  using mset_concat_update [of i "workers s" worker_item w]
  by (simp add: in_flight_def set_worker_def)

lemma in_flight_release:
  "i < length (workers s) \<Longrightarrow> worker_item (workers s ! i) = [item] \<Longrightarrow>
   mset (in_flight (set_worker i AtLoop s)) + {#item#} = mset (in_flight s)"
  using mset_concat_update [of i "workers s" worker_item AtLoop]
  by (simp add: in_flight_def set_worker_def)

lemma set_worker_simps [simp]:
  "queue (set_worker i w s) = queue s"
  "completed (set_worker i w s) = completed s"
  "skipped (set_worker i w s) = skipped s"
  "failed (set_worker i w s) = failed s"
  "fsPaths (set_worker i w s) = fsPaths s"
  "outcomes (set_worker i w s) = outcomes s"
  "workers (set_worker i w s) = (workers s)[i := w]"
  by (simp_all add: set_worker_def)

lemma record_outcome_simps [simp]:
  "queue (record_outcome item out s) = queue s"
  "workers (record_outcome item out s) = workers s"
  "fsPaths (record_outcome item out s) = fsPaths s"
  "outcomes (record_outcome item out s) = outcomes s @ [(item, out)]"
  "completed (record_outcome item out s) = completed s + 1"
  "skipped (record_outcome item out s) = (if out = Skipped then skipped s + 1 else skipped s)"
  "failed (record_outcome item out s) = (if out = Failed then failed s + 1 else failed s)"
  by (simp_all add: record_outcome_def)

lemma in_flight_cong: "workers s = workers s' \<Longrightarrow> in_flight s = in_flight s'"
  by (simp add: in_flight_def)

lemma count_outcome_record:
  "count_outcome out (record_outcome item out' s) =
     (if out' = out then count_outcome out s + 1 else count_outcome out s)"
  by (simp add: count_outcome_def)

lemma count_outcome_cong: "outcomes s = outcomes s' \<Longrightarrow> count_outcome out s = count_outcome out s'"
  by (simp add: count_outcome_def)

lemma pool_inv_init: "pool_inv inventory n (init_pool inventory n files0)"
  by (simp add: pool_inv_def init_pool_def in_flight_def count_outcome_def)

text \<open>A task leaves the queue and is counted at once (a skip).\<close>

lemma pool_inv_skip:
  assumes "pool_inv inventory n s" "queue s = item # rest"
  shows "pool_inv inventory n (record_outcome item out (s\<lparr>queue := rest\<rparr>))"
proof -
  have "in_flight (record_outcome item out (s\<lparr>queue := rest\<rparr>)) = in_flight s"
    by (rule in_flight_cong) simp
  moreover have "count_outcome out' (s\<lparr>queue := rest\<rparr>) = count_outcome out' s" for out'
    by (rule count_outcome_cong) simp
  ultimately show ?thesis
    using assms by (auto simp: pool_inv_def count_outcome_record)
qed

text \<open>A task leaves the queue and is held by worker \<open>i\<close>.\<close>

lemma pool_inv_take:
  assumes "pool_inv inventory n s" "queue s = item # rest" "i < length (workers s)"
    "workers s ! i = AtLoop" "worker_item w = [item]"
    "queue s' = rest" "workers s' = (workers s)[i := w]" "completed s' = completed s"
    "skipped s' = skipped s" "failed s' = failed s" "outcomes s' = outcomes s"
  shows "pool_inv inventory n s'"
proof -
  have "in_flight s' = in_flight (set_worker i w s)"
    by (rule in_flight_cong) (simp add: assms(7))
  then have f: "mset (in_flight s') = mset (in_flight s) + {#item#}"
    using in_flight_set_worker [of i s w] assms(3,4,5) by simp
  have c: "count_outcome out s' = count_outcome out s" for out
    by (rule count_outcome_cong) (rule assms(11))
  from assms(1,2) have nf: "Finished \<notin> set (workers s)"
    by (auto simp: pool_inv_def)
  have "set ((workers s)[i := w]) \<subseteq> insert w (set (workers s))"
    by (rule set_update_subset_insert)
  with nf assms(5) have "Finished \<notin> set (workers s')"
    unfolding assms(7) by (cases w) auto
  then show ?thesis
    using assms(1,2) by (simp add: pool_inv_def f c assms(6-11))
qed

lemma dispatch_simps:
  "queue (dispatch r i vw item s) = queue s"
  "completed (dispatch r i vw item s) = completed s"
  "skipped (dispatch r i vw item s) = skipped s"
  "failed (dispatch r i vw item s) = failed s"
  "outcomes (dispatch r i vw item s) = outcomes s"
  "\<exists>known. workers (dispatch r i vw item s) = (workers s)[i := Awaiting item known]"
  by (auto simp: dispatch_def split: prod.splits)

lemma pool_inv_pull:
  assumes inv: "pool_inv inventory n s" and i: "i < length (workers s)" "workers s ! i = AtLoop"
  shows "pool_inv inventory n (pull r h i mk vw s)"
proof (cases "queue s")
  case Nil
  have "mset (in_flight (set_worker i Finished s)) = mset (in_flight s)"
    using in_flight_set_worker [of i s Finished] i by simp
  moreover have "count_outcome out (set_worker i Finished s) = count_outcome out s" for out
    by (rule count_outcome_cong) simp
  ultimately show ?thesis
    using inv Nil by (simp add: pull_def pool_inv_def)
next
  case (Cons item rest)
  let ?s1 = "s\<lparr>queue := rest\<rparr>"
  let ?s2 = "?s1\<lparr>fsPaths := insert (dirname (thumbPathOf r item)) (fsPaths ?s1)\<rparr>"
  have skip: "pool_inv inventory n (record_outcome item Skipped ?s1)"
    using inv Cons by (rule pool_inv_skip)
  have rej: "pool_inv inventory n (set_worker i (Rejected item) ?s1)"
    using inv Cons i by (rule pool_inv_take) simp_all
  obtain known where k: "workers (dispatch r i vw item ?s2) = (workers s)[i := Awaiting item known]"
    using dispatch_simps(6) [of r i vw item ?s2] by auto
  have disp: "pool_inv inventory n (dispatch r i vw item ?s2)"
  proof (rule pool_inv_take [where w = "Awaiting item known"])
    show "pool_inv inventory n s" by (rule inv)
    show "queue s = item # rest" by (rule Cons)
    show "i < length (workers s)" by (rule i)
    show "workers s ! i = AtLoop" by (rule i)
    show "workers (dispatch r i vw item ?s2) = (workers s)[i := Awaiting item known]" by (rule k)
  qed (simp_all add: dispatch_simps)
  show ?thesis
    using skip rej disp by (simp add: pull_def Cons Let_def)
qed

lemma pool_inv_settle:
  assumes inv: "pool_inv inventory n s" and i: "i < length (workers s)"
    "workers s ! i = Awaiting item known"
  shows "pool_inv inventory n (settle r i res item known s)"
proof -
  define out where "out = (if (case known of Some ok \<Rightarrow> ok | None \<Rightarrow> res = ExecOk)
    then Generated else Failed)"
  define s1 where "s1 = s\<lparr>fsPaths :=
    (if (case known of Some ok \<Rightarrow> False | None \<Rightarrow> res \<noteq> ExecFail False)
     then insert (thumbPathOf r item) (fsPaths s) else fsPaths s)\<rparr>"
  have st: "settle r i res item known s = set_worker i AtLoop (record_outcome item out s1)"
    by (simp add: settle_def Let_def out_def s1_def)
  have w: "workers (record_outcome item out s1) = workers s"
    by (simp add: s1_def)
  have "mset (in_flight (set_worker i AtLoop (record_outcome item out s1))) + {#item#} =
        mset (in_flight (record_outcome item out s1))"
    by (rule in_flight_release) (simp_all add: s1_def i)
  moreover have "in_flight (record_outcome item out s1) = in_flight s"
    by (rule in_flight_cong) (rule w)
  ultimately have f: "mset (in_flight (settle r i res item known s)) + {#item#} = mset (in_flight s)"
    by (simp add: st)
  have c: "count_outcome out' (settle r i res item known s) =
      (if out = out' then count_outcome out' s + 1 else count_outcome out' s)" for out'
    by (simp add: count_outcome_def st s1_def)
  have "set ((workers s)[i := AtLoop]) \<subseteq> insert AtLoop (set (workers s))"
    by (rule set_update_subset_insert)
  then have fin: "Finished \<in> set (workers (settle r i res item known s)) \<Longrightarrow> Finished \<in> set (workers s)"
    by (auto simp: st s1_def)
  have "mset (queue s) + mset (in_flight s) + mset (map fst (outcomes s)) = mset inventory"
    using inv by (simp add: pool_inv_def)
  then have "mset (queue s) + mset (in_flight (settle r i res item known s)) + {#item#} +
      mset (map fst (outcomes s)) = mset inventory"
    by (simp add: f [symmetric])
  then have m: "mset (queue (settle r i res item known s)) +
      mset (in_flight (settle r i res item known s)) +
      mset (map fst (outcomes (settle r i res item known s))) = mset inventory"
    by (simp add: st s1_def)
  show ?thesis
    unfolding pool_inv_def
  proof (intro conjI impI)
    show "mset (queue (settle r i res item known s)) +
      mset (in_flight (settle r i res item known s)) +
      mset (map fst (outcomes (settle r i res item known s))) = mset inventory"
      by (rule m)
    show "completed (settle r i res item known s) = length (outcomes (settle r i res item known s))"
      using inv by (simp add: st s1_def pool_inv_def)
    show "skipped (settle r i res item known s) = count_outcome Skipped (settle r i res item known s)"
      using inv by (simp add: c pool_inv_def) (simp add: st s1_def out_def)
    show "failed (settle r i res item known s) = count_outcome Failed (settle r i res item known s)"
      using inv by (simp add: c pool_inv_def) (simp add: st s1_def out_def)
    show "length (workers (settle r i res item known s)) = n"
      using inv by (simp add: st s1_def pool_inv_def)
    assume "Finished \<in> set (workers (settle r i res item known s))"
    then have "Finished \<in> set (workers s)" by (rule fin)
    then show "queue (settle r i res item known s) = []"
      using inv by (simp add: st s1_def pool_inv_def)
  qed
qed

lemma pool_inv_step:
  "pool_inv inventory n s \<Longrightarrow> step r h ev s = Some s' \<Longrightarrow> pool_inv inventory n s'"
  by (cases ev)
    (auto simp: step_def pool_inv_pull pool_inv_settle split: if_splits worker.splits)

lemma pool_inv_run:
  "pool_inv inventory n s \<Longrightarrow> run r h evs s = Some s' \<Longrightarrow> pool_inv inventory n s'"
proof (induction evs arbitrary: s)
  case Nil
  then show ?case by simp
next
  case (Cons ev evs)
  then obtain s1 where "step r h ev s = Some s1" "run r h evs s1 = Some s'"
    by (auto split: option.splits)
  with Cons show ?case
    using pool_inv_step by blast
qed

lemma in_flight_all_finished: "all_finished s \<Longrightarrow> in_flight s = []"
proof -
  assume "all_finished s"
  then have "\<forall>w \<in> set (workers s). worker_item w = []"
    by (auto simp: all_finished_def list_all_iff)
  then show ?thesis
    by (simp add: in_flight_def)
qed

lemma count_outcome_total:
  "count_outcome Generated s + count_outcome Skipped s + count_outcome Failed s = length (outcomes s)"
proof -
  have "length (filter (\<lambda>eo. snd eo = Generated) xs) + length (filter (\<lambda>eo. snd eo = Skipped) xs) +
        length (filter (\<lambda>eo. snd eo = Failed) xs) = length xs" for xs :: "(media_entry \<times> outcome) list"
  proof (induction xs)
    case Nil
    then show ?case by simp
  next
    case (Cons x xs)
    then show ?case by (cases "snd x") auto
  qed
  then show ?thesis by (simp add: count_outcome_def)
qed

lemma final_counts:
  assumes "0 < n" "pool_inv inventory n s" "all_finished s"
  shows "mset (map fst (outcomes s)) = mset inventory"
    and "int (completed s) - int (skipped s) - int (failed s) = int (count_outcome Generated s)"
    and "completed s = length inventory"
proof -
  from assms(1,2) obtain w where "w \<in> set (workers s)"
    by (cases "workers s") (auto simp: pool_inv_def)
  with assms(3) have "Finished \<in> set (workers s)"
    by (auto simp: all_finished_def list_all_iff)
  with assms(2) have q: "queue s = []"
    by (simp add: pool_inv_def)
  with assms(2) in_flight_all_finished [OF assms(3)]
  show m: "mset (map fst (outcomes s)) = mset inventory"
    by (simp add: pool_inv_def)
  from assms(2) count_outcome_total [of s]
  show "int (completed s) - int (skipped s) - int (failed s) = int (count_outcome Generated s)"
    by (simp add: pool_inv_def)
  have "length (outcomes s) = size (mset (map fst (outcomes s)))"
    by simp
  also have "\<dots> = length inventory"
    unfolding m by simp
  finally show "completed s = length inventory"
    using assms(2) by (simp add: pool_inv_def)
qed

text \<open>
  C9: when the pool has drained the inventory and prints its final line, the three counts
  add up to the size of the inventory, for every number of workers from 1 up; every entry
  of the inventory has exactly one recorded outcome, and the counts count these outcomes.
\<close>

theorem pool_conservation:
  assumes "1 \<le> n"
    and "run rootDir hasFfmpeg evs (init_pool inventory n files0) = Some s"
    and "summary s = Some (generatedCount, skippedCount, failedCount)"
  shows "generatedCount + int skippedCount + int failedCount = int (length inventory) \<and>
         mset (map fst (outcomes s)) = mset inventory \<and>
         generatedCount = int (count_outcome Generated s) \<and>
         skippedCount = count_outcome Skipped s \<and>
         failedCount = count_outcome Failed s"
proof -
  have inv: "pool_inv inventory n s"
    using pool_inv_init assms(2) by (rule pool_inv_run)
  from assms(3) have fin: "all_finished s"
    and g: "generatedCount = int (completed s) - int (skipped s) - int (failed s)"
    and sk: "skippedCount = skipped s" and f: "failedCount = failed s"
    by (auto simp: summary_def split: if_splits)
  from assms(1) have n: "0 < n" by simp
  note fc = final_counts [OF n inv fin]
  have "generatedCount + int skippedCount + int failedCount = int (completed s)"
    by (simp add: g sk f)
  with fc inv show ?thesis
    by (simp add: g sk f pool_inv_def)
qed

lemmas pool_eval = step_def pull_def dispatch_def settle_def set_worker_def record_outcome_def
  init_pool_def summary_def all_finished_def Let_def example_schedule_def
  example_video_def example_image_def CONCURRENT_THUMBNAILS_def replicate_num

theorem pool_conservation_witness:
  "map_option summary
     (run (lit ''/g'') False (example_schedule 2 [ExecOk])
        (init_pool [example_video, example_image] CONCURRENT_THUMBNAILS {})) =
     Some (Some (1, 1, 0)) \<and>
   (1 :: int) + int 1 + int 0 = int (length [example_video, example_image])"
proof -
  have r: "map_option summary
     (run (lit ''/g'') False (example_schedule 2 [ExecOk])
        (init_pool [example_video, example_image] CONCURRENT_THUMBNAILS {})) =
     Some (Some (1, 1, 0))"
    by (simp add: pool_eval)
  then obtain s where s: "run (lit ''/g'') False (example_schedule 2 [ExecOk])
        (init_pool [example_video, example_image] CONCURRENT_THUMBNAILS {}) = Some s"
    "summary s = Some (1, 1, 0)"
    by auto
  have "1 \<le> CONCURRENT_THUMBNAILS"
    by (simp add: CONCURRENT_THUMBNAILS_def)
  from pool_conservation [OF this s] r show ?thesis
    by simp
qed

section \<open>The cache across two runs\<close>

lemma generateVideoThumbnail_resolved:
  assumes "generateVideoThumbnail w p st = (Inr (), vst)"
  shows "outputExists vst"
proof -
  from assms obtain d t where d: "getVideoDuration w = Some d" and t: "mkdtemp w = Some t"
    by (auto simp: generateVideoThumbnail_def split: option.splits)
  obtain x s where l: "segments_loop w t (videoTimestamps p d) (videoFrames p) 0
      (st\<lparr>scratch := Some []\<rparr>) = (x, s)"
    by (cases "segments_loop w t (videoTimestamps p d) (videoFrames p) 0 (st\<lparr>scratch := Some []\<rparr>)")
  show ?thesis
  proof (cases x)
    case (Inl e)
    with assms l show ?thesis
      by (simp add: generateVideoThumbnail_unfold [OF d t] extract_and_assemble_def)
  next
    case (Inr k)
    obtain r1 s1 where a: "assemble_frames w s = (r1, s1)"
      by (cases "assemble_frames w s")
    with assms l Inr have "r1 = Inr ()" "vst = cleanup w t s1"
      by (auto simp: generateVideoThumbnail_unfold [OF d t] extract_and_assemble_def)
    with assemble_frames_cases [OF a] show ?thesis
      by (cases "assemble w") (auto simp: outputExists_cleanup)
  qed
qed

lemma outcome_ok_mono: "fs \<subseteq> fs' \<Longrightarrow> outcome_ok r h F fs eo \<Longrightarrow> outcome_ok r h F fs' eo"
  by (auto simp: outcome_ok_def)

lemma worker_ok_mono: "fs \<subseteq> fs' \<Longrightarrow> worker_ok r h F fs w \<Longrightarrow> worker_ok r h F fs' w"
  by (auto simp: worker_ok_def)

lemma list_all_update: "list_all P xs \<Longrightarrow> P x \<Longrightarrow> list_all P (xs[i := x])"
  using set_update_subset_insert [of xs i x] by (auto simp: list_all_iff)

lemma cache_inv_set_worker:
  "cache_inv r h F s \<Longrightarrow> worker_ok r h F (fsPaths s) w \<Longrightarrow> cache_inv r h F (set_worker i w s)"
  by (simp add: cache_inv_def list_all_update)

lemma cache_inv_record:
  "cache_inv r h F s \<Longrightarrow> outcome_ok r h F (fsPaths s) (item, out) \<Longrightarrow>
   cache_inv r h F (record_outcome item out s)"
  by (simp add: cache_inv_def)

lemma cache_inv_grow:
  assumes "cache_inv r h F s" "fsPaths s \<subseteq> fs'"
  shows "cache_inv r h F (s\<lparr>fsPaths := fs'\<rparr>)"
  using assms
  by (auto simp: cache_inv_def list_all_iff intro: outcome_ok_mono worker_ok_mono)

lemma cache_inv_queue: "cache_inv r h F (s\<lparr>queue := q\<rparr>) = cache_inv r h F s"
  by (simp add: cache_inv_def)

lemma cache_inv_init: "cache_inv r h F (init_pool inventory n F)"
  by (simp add: cache_inv_def init_pool_def worker_ok_def list_all_iff)

lemma cache_inv_pull:
  assumes inv: "cache_inv r h F s"
  shows "cache_inv r h F (pull r h i mk vw s)"
proof (cases "queue s")
  case Nil
  have "cache_inv r h F (set_worker i Finished s)"
    using inv by (rule cache_inv_set_worker) (simp add: worker_ok_def)
  then show ?thesis by (simp add: pull_def Nil)
next
  case (Cons item rest)
  let ?tp = "thumbPathOf r item"
  let ?s1 = "s\<lparr>queue := rest\<rparr>"
  let ?s2 = "?s1\<lparr>fsPaths := insert (dirname ?tp) (fsPaths ?s1)\<rparr>"
  from inv have F: "F \<subseteq> fsPaths s"
    by (simp add: cache_inv_def)
  from inv have inv1: "cache_inv r h F ?s1"
    by (simp add: cache_inv_queue)
  then have inv2: "cache_inv r h F ?s2"
    by (rule cache_inv_grow) auto
  have skip: "cache_inv r h F (record_outcome item Skipped ?s1)"
    if "?tp \<in> fsPaths s \<or> (mtype item = Video \<and> \<not> h)"
    using inv1 by (rule cache_inv_record) (use that in \<open>auto simp: outcome_ok_def\<close>)
  have rej: "cache_inv r h F (set_worker i (Rejected item) ?s1)"
    if "?tp \<notin> fsPaths s" "\<not> (mtype item = Video \<and> \<not> h)"
    using inv1 by (rule cache_inv_set_worker) (use that F in \<open>auto simp: worker_ok_def\<close>)
  have disp: "cache_inv r h F (dispatch r i vw item ?s2)"
    if no: "?tp \<notin> fsPaths s" "\<not> (mtype item = Video \<and> \<not> h)"
  proof (cases "mtype item = Video")
    case False
    then have d: "dispatch r i vw item ?s2 = set_worker i (Awaiting item None) ?s2"
      by (simp add: dispatch_def)
    show ?thesis
      unfolding d using inv2
      by (rule cache_inv_set_worker) (use no F in \<open>auto simp: worker_ok_def\<close>)
  next
    case True
    obtain res vst where g: "generateVideoThumbnail vw (path_join [r, path item])
        \<lparr>scratch = None, outputExists = False\<rparr> = (res, vst)"
      by (cases "generateVideoThumbnail vw (path_join [r, path item])
        \<lparr>scratch = None, outputExists = False\<rparr>")
    have ok: "res = Inr () \<Longrightarrow> outputExists vst"
      using generateVideoThumbnail_resolved g by blast
    let ?s3 = "?s2\<lparr>fsPaths := (if outputExists vst then insert ?tp (fsPaths ?s2) else fsPaths ?s2)\<rparr>"
    have d: "dispatch r i vw item ?s2 = set_worker i (Awaiting item (Some (res = Inr ()))) ?s3"
      using True by (simp add: dispatch_def g)
    have inv3: "cache_inv r h F ?s3"
      using inv2 by (rule cache_inv_grow) auto
    show ?thesis
      unfolding d using inv3
      by (rule cache_inv_set_worker) (use no F ok in \<open>auto simp: worker_ok_def\<close>)
  qed
  show ?thesis
    using skip rej disp by (auto simp: pull_def Cons Let_def)
qed

lemma cache_inv_settle:
  assumes inv: "cache_inv r h F s" and i: "i < length (workers s)"
    "workers s ! i = Awaiting item known"
  shows "cache_inv r h F (settle r i res item known s)"
proof -
  let ?tp = "thumbPathOf r item"
  define out where "out = (if (case known of Some ok \<Rightarrow> ok | None \<Rightarrow> res = ExecOk)
    then Generated else Failed)"
  define s1 where "s1 = s\<lparr>fsPaths :=
    (if (case known of Some ok \<Rightarrow> False | None \<Rightarrow> res \<noteq> ExecFail False)
     then insert ?tp (fsPaths s) else fsPaths s)\<rparr>"
  have st: "settle r i res item known s = set_worker i AtLoop (record_outcome item out s1)"
    by (simp add: settle_def Let_def out_def s1_def)
  from i have "Awaiting item known \<in> set (workers s)"
    by (metis nth_mem)
  with inv have w: "worker_ok r h F (fsPaths s) (Awaiting item known)"
    by (simp add: cache_inv_def list_all_iff)
  have inv1: "cache_inv r h F s1"
    unfolding s1_def using inv by (rule cache_inv_grow) auto
  have "outcome_ok r h F (fsPaths s1) (item, out)"
    using w by (cases known; cases res) (auto simp: outcome_ok_def worker_ok_def out_def s1_def)
  with inv1 have "cache_inv r h F (record_outcome item out s1)"
    by (rule cache_inv_record)
  then show ?thesis
    unfolding st by (rule cache_inv_set_worker) (simp add: worker_ok_def)
qed

lemma cache_inv_step:
  "cache_inv r h F s \<Longrightarrow> step r h ev s = Some s' \<Longrightarrow> cache_inv r h F s'"
  by (cases ev)
    (auto simp: step_def cache_inv_pull cache_inv_settle split: if_splits worker.splits)

lemma cache_inv_run:
  "cache_inv r h F s \<Longrightarrow> run r h evs s = Some s' \<Longrightarrow> cache_inv r h F s'"
proof (induction evs arbitrary: s)
  case Nil
  then show ?case by simp
next
  case (Cons ev evs)
  then obtain s1 where "step r h ev s = Some s1" "run r h evs s1 = Some s'"
    by (auto split: option.splits)
  with Cons show ?case
    using cache_inv_step by blast
qed

lemma all_skipped_count:
  "\<forall>eo \<in> set xs. snd eo = Skipped \<Longrightarrow>
   length (filter (\<lambda>eo. snd eo = Skipped) xs) = length xs \<and>
   length (filter (\<lambda>eo. snd eo = Failed) xs) = 0"
  by (induction xs) auto

lemma none_failed:
  "length (filter (\<lambda>eo. snd eo = Failed) xs) = 0 \<Longrightarrow> (e, out) \<in> set xs \<Longrightarrow> out \<noteq> Failed"
  by (induction xs) (auto split: if_splits)

lemma pull_cache_hit:
  assumes "queue s = item # rest" "i < length (workers s)" "workers s ! i = AtLoop"
    "thumbPathOf r item \<in> fsPaths s"
  shows "step r h (Pull i mk vw) s = Some (record_outcome item Skipped (s\<lparr>queue := rest\<rparr>))"
  using assms by (simp add: step_def pull_def)

text \<open>
  C4 (as stated fails; amended): a task whose cache artifact exists is Skipped without
  dispatch, whether or not the decoder is available. Hence, when the pool runs a second
  time over the same inventory and the files the first run left, every entry the first run
  Generated is Skipped; an entry is Generated by the second run only if it Failed in the
  first run, or if it is a video that the first run Skipped for want of the decoder while
  the second run has the decoder; and when the first run reported no Failed task and the
  decoder is not available to the second run alone, the second run reports no Generated and
  no Failed task: all are Skipped.
\<close>

theorem second_run_skips:
  assumes "1 \<le> n"
    and "run rootDir hasFfmpeg1 evs1 (init_pool inventory n files0) = Some s1"
    and "all_finished s1"
    and "run rootDir hasFfmpeg2 evs2 (init_pool inventory n (fsPaths s1)) = Some s2"
    and "all_finished s2"
  shows "(\<forall>e. (e, Generated) \<in> set (outcomes s1) \<longrightarrow>
            (e, Skipped) \<in> set (outcomes s2) \<and> (e, Generated) \<notin> set (outcomes s2) \<and>
            (e, Failed) \<notin> set (outcomes s2)) \<and>
         (\<forall>e. (e, Generated) \<in> set (outcomes s2) \<longrightarrow>
            (e, Failed) \<in> set (outcomes s1) \<or>
            (mtype e = Video \<and> \<not> hasFfmpeg1 \<and> hasFfmpeg2 \<and> (e, Skipped) \<in> set (outcomes s1))) \<and>
         (failed s1 = 0 \<and> (hasFfmpeg2 \<longrightarrow> hasFfmpeg1) \<longrightarrow>
            summary s2 = Some (0, length inventory, 0)) \<and>
         (\<forall>h s i mk vw item rest.
            queue s = item # rest \<and> i < length (workers s) \<and> workers s ! i = AtLoop \<and>
            thumbPathOf rootDir item \<in> fsPaths s \<longrightarrow>
            step rootDir h (Pull i mk vw) s =
              Some (record_outcome item Skipped (s\<lparr>queue := rest\<rparr>)))"
proof (intro conjI allI impI)
  from assms(1) have n: "0 < n" by simp
  have p1: "pool_inv inventory n s1"
    using pool_inv_init assms(2) by (rule pool_inv_run)
  have p2: "pool_inv inventory n s2"
    using pool_inv_init assms(4) by (rule pool_inv_run)
  have c1: "cache_inv rootDir hasFfmpeg1 files0 s1"
    using cache_inv_init assms(2) by (rule cache_inv_run)
  have c2: "cache_inv rootDir hasFfmpeg2 (fsPaths s1) s2"
    using cache_inv_init assms(4) by (rule cache_inv_run)
  note f1 = final_counts [OF n p1 assms(3)]
  note f2 = final_counts [OF n p2 assms(5)]
  have cover: "\<exists>out. (e, out) \<in> set (outcomes s2)" if "(e, out1) \<in> set (outcomes s1)" for e out1
  proof -
    from that have "e \<in> set (map fst (outcomes s1))" by force
    then have "e \<in># mset (map fst (outcomes s1))" by simp
    then have "e \<in># mset (map fst (outcomes s2))" by (simp only: f1(1) f2(1))
    then show ?thesis by auto
  qed
  have cover': "\<exists>out. (e, out) \<in> set (outcomes s1)" if "(e, out2) \<in> set (outcomes s2)" for e out2
  proof -
    from that have "e \<in> set (map fst (outcomes s2))" by force
    then have "e \<in># mset (map fst (outcomes s2))" by simp
    then have "e \<in># mset (map fst (outcomes s1))" by (simp only: f1(1) f2(1))
    then show ?thesis by auto
  qed
  have ok1: "outcome_ok rootDir hasFfmpeg1 files0 (fsPaths s1) eo" if "eo \<in> set (outcomes s1)" for eo
    using c1 that by (simp add: cache_inv_def list_all_iff)
  have ok2: "outcome_ok rootDir hasFfmpeg2 (fsPaths s1) (fsPaths s2) eo" if "eo \<in> set (outcomes s2)" for eo
    using c2 that by (simp add: cache_inv_def list_all_iff)
  {
    fix e
    assume g: "(e, Generated) \<in> set (outcomes s1)"
    from ok1 [OF g] have tp: "thumbPathOf rootDir e \<in> fsPaths s1"
      by (simp add: outcome_ok_def)
    have sk: "out = Skipped" if "(e, out) \<in> set (outcomes s2)" for out
      using ok2 [OF that] tp by (simp add: outcome_ok_def)
    from cover [OF g] sk show "(e, Skipped) \<in> set (outcomes s2)"
      by auto
    from sk show "(e, Generated) \<notin> set (outcomes s2)" "(e, Failed) \<notin> set (outcomes s2)"
      by auto
  }
  {
    fix e
    assume g: "(e, Generated) \<in> set (outcomes s2)"
    from ok2 [OF g] have no: "thumbPathOf rootDir e \<notin> fsPaths s1"
      "\<not> (mtype e = Video \<and> \<not> hasFfmpeg2)"
      by (auto simp: outcome_ok_def)
    from cover' [OF g] obtain out1 where o1: "(e, out1) \<in> set (outcomes s1)"
      by blast
    show "(e, Failed) \<in> set (outcomes s1) \<or>
        (mtype e = Video \<and> \<not> hasFfmpeg1 \<and> hasFfmpeg2 \<and> (e, Skipped) \<in> set (outcomes s1))"
    proof (cases out1)
      case Generated
      with ok1 [OF o1] no show ?thesis by (simp add: outcome_ok_def)
    next
      case Skipped
      with ok1 [OF o1] no o1 show ?thesis by (auto simp: outcome_ok_def)
    next
      case Failed
      with o1 show ?thesis by simp
    qed
  }
  {
    assume a: "failed s1 = 0 \<and> (hasFfmpeg2 \<longrightarrow> hasFfmpeg1)"
    then have nf: "failed s1 = 0" and hh: "hasFfmpeg2 \<longrightarrow> hasFfmpeg1"
      by simp_all
    with p1 have nf': "length (filter (\<lambda>eo. snd eo = Failed) (outcomes s1)) = 0"
      by (simp add: pool_inv_def count_outcome_def)
    have "snd eo = Skipped" if eo: "eo \<in> set (outcomes s2)" for eo
    proof -
      obtain e out2 where eo': "eo = (e, out2)" by (cases eo)
      with cover' eo obtain out1 where o1: "(e, out1) \<in> set (outcomes s1)"
        by blast
      from none_failed [OF nf' o1] have "out1 = Generated \<or> out1 = Skipped"
        by (cases out1) auto
      with ok1 [OF o1] have "thumbPathOf rootDir e \<in> fsPaths s1 \<or> (mtype e = Video \<and> \<not> hasFfmpeg1)"
        by (auto simp: outcome_ok_def)
      with hh have "thumbPathOf rootDir e \<in> fsPaths s1 \<or> (mtype e = Video \<and> \<not> hasFfmpeg2)"
        by auto
      with ok2 [OF eo] show ?thesis
        by (auto simp: outcome_ok_def eo')
    qed
    then have "\<forall>eo \<in> set (outcomes s2). snd eo = Skipped"
      by blast
    from all_skipped_count [OF this] p2 f2(3) assms(5)
    show "summary s2 = Some (0, length inventory, 0)"
      by (simp add: summary_def pool_inv_def count_outcome_def)
  }
  {
    fix h and s :: pool and i mk vw item rest
    assume "queue s = item # rest \<and> i < length (workers s) \<and> workers s ! i = AtLoop \<and>
            thumbPathOf rootDir item \<in> fsPaths s"
    then show "step rootDir h (Pull i mk vw) s =
              Some (record_outcome item Skipped (s\<lparr>queue := rest\<rparr>))"
      by (simp add: pull_cache_hit)
  }
qed

lemmas run_eval = step_def pull_def dispatch_def settle_def set_worker_def record_outcome_def
  init_pool_def summary_def all_finished_def Let_def example_schedule_def
  CONCURRENT_THUMBNAILS_def replicate_num

lemma example_image_thumbPath:
  "thumbPathOf (lit ''/g'') example_image = lit ''/g/thumbnails/0/a/0a4529d749fa4e35.jpg''"
proof -
  have h: "hashPath (lit ''a.jpg'') = lit ''0a4529d749fa4e35''"
    by (simp add: js_eval)
  have e: "toLowerCase (extname (lit ''a.jpg'')) = lit ''.jpg''"
    by (simp add: lit_def path_eval)
  have "getThumbnailPath (lit ''a.jpg'') Image = lit ''thumbnails/0/a/0a4529d749fa4e35.jpg''"
    unfolding getThumbnailPath_def h e by (simp add: lit_def path_eval)
  then show ?thesis
    by (simp add: thumbPathOf_def example_image_def) (simp add: lit_def path_eval)
qed

lemma example_image_thumbDir:
  "dirname (lit ''/g/thumbnails/0/a/0a4529d749fa4e35.jpg'') = lit ''/g/thumbnails/0/a''"
  by (simp add: lit_def path_eval)

lemma example_image_type: "mtype example_image = Image"
  by (simp add: example_image_def)

lemma example_video_type: "mtype example_video = Video"
  by (simp add: example_video_def)

lemma generateVideoThumbnail_world_ok:
  "generateVideoThumbnail world_ok p \<lparr>scratch = None, outputExists = False\<rparr> =
     (Inr (), \<lparr>scratch = None, outputExists = True\<rparr>)"
proof -
  have d: "getVideoDuration world_ok = Some (31 / 10)"
    by (rule world_ok_simps)
  have t: "mkdtemp world_ok = Some (lit ''/tmp/video-thumb-Ab12Cd'')"
    by (simp add: world_ok_def)
  have x: "\<forall>time path. extractFrame world_ok time path = ExecOk"
    by (simp add: world_ok_def)
  have a: "assemble world_ok = ExecOk" "readdir_ok world_ok" "\<forall>path. unlink_ok world_ok path"
    "rmdir_ok world_ok"
    by (simp_all add: world_ok_def)
  have c: "cleanup world_ok tmp st = st\<lparr>scratch := None\<rparr>" for tmp st
    using cleanup_ok [OF a(2-4), of tmp st] outputExists_cleanup [of world_ok tmp st]
    by (cases "cleanup world_ok tmp st"; cases st) simp
  show ?thesis
    unfolding generateVideoThumbnail_unfold [OF d t] extract_and_assemble_def
      extraction_ok [OF x, of "31 / 10", simplified]
    by (simp add: assemble_frames_def a c)
qed

theorem second_run_skips_witness:
  "run_twice (lit ''/g'') True True CONCURRENT_THUMBNAILS [example_image] {}
     (example_schedule 1 [ExecOk]) (example_schedule 2 []) =
   Some (Some (1, 0, 0), Some (0, 1, 0))"
proof -
  let ?tp = "thumbPathOf (lit ''/g'') example_image"
  obtain s1 where s1: "run (lit ''/g'') True (example_schedule 1 [ExecOk])
      (init_pool [example_image] CONCURRENT_THUMBNAILS {}) = Some s1"
    and a1: "all_finished s1" and f1: "failed s1 = 0" and sum1: "summary s1 = Some (1, 0, 0)"
    and fs1: "fsPaths s1 = {?tp, dirname ?tp}"
    by (simp add: run_eval example_image_type)
  obtain s2 where s2: "run (lit ''/g'') True (example_schedule 2 [])
      (init_pool [example_image] CONCURRENT_THUMBNAILS (fsPaths s1)) = Some s2"
    and a2: "all_finished s2"
    unfolding fs1 by (simp add: run_eval example_image_type)
  have "1 \<le> CONCURRENT_THUMBNAILS"
    by (simp add: CONCURRENT_THUMBNAILS_def)
  from second_run_skips [OF this s1 a1 s2 a2] f1 have "summary s2 = Some (0, 1, 0)"
    by simp
  then show ?thesis
    unfolding run_twice_def s1 option.case s2 sum1 by simp
qed

text \<open>
  The claim as stated fails when a task of the first run Failed without leaving a file:
  the second run dispatches it again, and it can be Generated. It also fails when the first
  run Skipped a video because the decoder was missing and the decoder is there for the
  second run.
\<close>

theorem second_run_generates_counterexample:
  "run_twice (lit ''/g'') True True CONCURRENT_THUMBNAILS [example_image] {}
     (example_schedule 1 [ExecFail False]) (example_schedule 1 [ExecOk]) =
   Some (Some (0, 0, 1), Some (1, 0, 0)) \<and>
   run_twice (lit ''/g'') False True CONCURRENT_THUMBNAILS [example_video] {}
     (example_schedule 2 []) (example_schedule 1 [ExecOk]) =
   Some (Some (0, 1, 0), Some (1, 0, 0))"
proof -
  have ne: "lit ''/g/thumbnails/0/a/0a4529d749fa4e35.jpg'' \<noteq> lit ''/g/thumbnails/0/a''"
    by (simp add: lit_def)
  have 1: "run_twice (lit ''/g'') True True CONCURRENT_THUMBNAILS [example_image] {}
     (example_schedule 1 [ExecFail False]) (example_schedule 1 [ExecOk]) =
   Some (Some (0, 0, 1), Some (1, 0, 0))"
    by (simp add: run_twice_def run_eval example_image_type example_image_thumbPath
        example_image_thumbDir ne)
  have 2: "run_twice (lit ''/g'') False True CONCURRENT_THUMBNAILS [example_video] {}
     (example_schedule 2 []) (example_schedule 1 [ExecOk]) =
   Some (Some (0, 1, 0), Some (1, 0, 0))"
    by (simp add: run_twice_def run_eval example_video_type generateVideoThumbnail_world_ok)
  from 1 2 show ?thesis ..
qed

end
